theory Spec2Isabelle
  imports Complex_Main
begin

section \<open>The MP4 compressor component (src/src/index.js)\<close>

text \<open>
  The repository is one React component, \<open>MP4Compressor\<close>. It keeps its state in
  \<open>useState\<close> cells, registers two event handlers with the external encoder
  (\<open>ffmpeg.on("log")\<close>, \<open>ffmpeg.on("progress")\<close>) and has one asynchronous function,
  \<open>start\<close>, that builds the encoder's argument list and drives one run.

  The embedding follows the source: the argument assembly is a pure function of the five
  option cells; the component is a record of its state cells; every handler is a function
  on that record; \<open>start\<close> is cut at its \<open>await\<close> points, each resumption being an
  event that carries how the awaited promise settled.
\<close>

subsection \<open>JavaScript values\<close>

text \<open>
  A JavaScript number is NaN, an infinity or a finite binary64 value; a finite value is
  modelled by the rational it denotes (the sign of zero is not kept: no comparison of the
  source tells the two zeros apart).
\<close>

datatype number = NaN | NegInf | Fin rat | PosInf

text \<open>\<open>Number.isNaN\<close>.\<close>

fun Number_isNaN :: "number \<Rightarrow> bool" where
  "Number_isNaN NaN = True"
| "Number_isNaN _ = False"

text \<open>The comparison \<open>a < b\<close>: false whenever an operand is NaN.\<close>

fun js_less :: "number \<Rightarrow> number \<Rightarrow> bool" where
  "js_less NaN _ = False"
| "js_less _ NaN = False"
| "js_less _ NegInf = False"
| "js_less NegInf _ = True"
| "js_less PosInf _ = False"
| "js_less (Fin a) PosInf = True"
| "js_less (Fin a) (Fin b) = (a < b)"

text \<open>\<open>a <= b\<close>, used to state bounds (the source itself only uses \<open><\<close>).\<close>

fun js_le :: "number \<Rightarrow> number \<Rightarrow> bool" where
  "js_le NaN _ = False"
| "js_le _ NaN = False"
| "js_le NegInf _ = True"
| "js_le _ PosInf = True"
| "js_le PosInf _ = False"
| "js_le (Fin a) NegInf = False"
| "js_le (Fin a) (Fin b) = (a \<le> b)"

text \<open>
  Rounding a rational to binary64, as IEEE 754 arithmetic does after every operation: to
  the nearest value with a 53-bit significand, a tie going to the even significand; below
  \<open>2^-1022\<close> the values are the multiples of \<open>2^-1074\<close>; a result of magnitude
  \<open>2^1024\<close> or more is an infinity.
\<close>

text \<open>The number of binary digits of a positive integer.\<close>

function bitlength :: "int \<Rightarrow> nat" where
  "bitlength n = (if n \<le> 0 then 0 else Suc (bitlength (n div 2)))"
  by pat_completeness auto
termination
  by (relation "measure nat") auto

declare bitlength.simps [simp del]

text \<open>For \<open>q > 0\<close>, the integer \<open>e\<close> with \<open>2^e \<le> q < 2^(e+1)\<close>.\<close>

definition floor_log2 :: "rat \<Rightarrow> int" where
  "floor_log2 q =
     (if 1 \<le> q then int (bitlength \<lfloor>q\<rfloor>) - 1
      else - int (bitlength (\<lceil>1 / q\<rceil> - 1)))"

definition pow2 :: "int \<Rightarrow> rat" where
  "pow2 k = (if 0 \<le> k then 2 ^ nat k else 1 / 2 ^ nat (- k))"

text \<open>The nearest integer, a tie going to the even one.\<close>

definition round_even :: "rat \<Rightarrow> int" where
  "round_even x =
     (let f = \<lfloor>x\<rfloor>; r = x - of_int f
      in if r < 1 / 2 then f else if 1 / 2 < r then f + 1 else if even f then f else f + 1)"

definition round_double :: "rat \<Rightarrow> number" where
  "round_double q =
     (if q = 0 then Fin 0
      else
        let a = \<bar>q\<bar>;
            e = max (floor_log2 a) (- 1022);
            u = pow2 (e - 52);
            r = of_int (round_even (a / u)) * u
        in if pow2 1024 \<le> r then (if q < 0 then NegInf else PosInf)
           else Fin (if q < 0 then - r else r))"

text \<open>
  \<open>a * b\<close> for a finite \<open>b > 0\<close> (the source multiplies the payload by 100): the product
  rounded to binary64.
\<close>

fun js_mul :: "number \<Rightarrow> rat \<Rightarrow> number" where
  "js_mul (Fin a) b = round_double (a * b)"
| "js_mul x b = x"

text \<open>
  \<open>a + b\<close> for a finite \<open>b\<close> (the source adds 0.5 to the progress value): the sum
  rounded to binary64.
\<close>

fun js_add :: "number \<Rightarrow> rat \<Rightarrow> number" where
  "js_add (Fin a) b = round_double (a + b)"
| "js_add x b = x"

text \<open>\<open>Math.round\<close>: the nearest integer, a tie going up.\<close>

fun Math_round :: "number \<Rightarrow> number" where
  "Math_round (Fin a) = Fin (of_int \<lfloor>a + 1 / 2\<rfloor>)"
| "Math_round x = x"

text \<open>\<open>Math.min\<close> of two arguments: NaN if either is NaN.\<close>

fun Math_min :: "number \<Rightarrow> number \<Rightarrow> number" where
  "Math_min NaN _ = NaN"
| "Math_min _ NaN = NaN"
| "Math_min a b = (if js_less b a then b else a)"

text \<open>\<open>String(n)\<close> for an integer \<open>n\<close>: its decimal digits, with a minus sign if negative.\<close>

definition digit_char :: "nat \<Rightarrow> char" where
  "digit_char d = ''0123456789'' ! d"

fun digits_of :: "nat \<Rightarrow> string" where
  "digits_of n = (if n < 10 then [digit_char n] else digits_of (n div 10) @ [digit_char (n mod 10)])"

declare digits_of.simps [simp del]

definition String_of :: "int \<Rightarrow> string" where
  "String_of i = (if i < 0 then CHR ''-'' # digits_of (nat (- i)) else digits_of (nat i))"

text \<open>\<open>xs.slice(-n)\<close>: the last \<open>n\<close> elements, all of them when there are fewer.\<close>

definition slice_last :: "nat \<Rightarrow> 'a list \<Rightarrow> 'a list" where
  "slice_last n xs = drop (length xs - n) xs"

subsection \<open>The encoder's argument list (start, lines 103-129)\<close>

text \<open>
  The five option cells of the component. \<open>preset\<close>, \<open>resolution\<close> and \<open>audioBitrate\<close>
  are strings in the source, \<open>crf\<close> is the integer that \<open>parseInt\<close> reads from the range
  input.
\<close>

record EncodeSettings =
  preset :: string
  crf :: int
  resolution :: string
  audioBitrate :: string
  copyMetadata :: bool

definition inputName :: string where
  "inputName = ''input.mp4''"

definition outputName :: string where
  "outputName = ''output.mp4''"

text \<open>The \<open>height\<close> chosen at line 118: anything but 1080p and 720p gives 480.\<close>

definition height :: "string \<Rightarrow> int" where
  "height r = (if r = ''1080p'' then 1080 else if r = ''720p'' then 720 else 480)"

text \<open>The list \<open>args\<close>, built by the pushes of lines 103 to 129 in their order.\<close>

definition start_args :: "EncodeSettings \<Rightarrow> string list" where
  "start_args st =
     (let args = [''-i'', inputName];
          args = (if copyMetadata st
                  then args @ [''-map_metadata'', ''0'', ''-movflags'', ''use_metadata_tags'']
                  else args);
          args = args @ [''-c:v'', ''libx264'', ''-preset'', preset st, ''-crf'', String_of (crf st)];
          args = (if resolution st \<noteq> ''source''
                  then args @ [''-vf'', ''scale=-2:'' @ String_of (height (resolution st))]
                  else args);
          args = args @ [''-c:a'', ''aac'', ''-b:a'', audioBitrate st];
          args = args @ [''-movflags'', ''+faststart''];
          args = args @ [outputName]
      in args)"

text \<open>The values the option controls of the page can produce (the select options of lines
  260, 272-275 and 286, and the range input of lines 243-250).\<close>

definition presets :: "string list" where
  "presets = [''ultrafast'', ''superfast'', ''veryfast'', ''faster'', ''fast'', ''medium'',
              ''slow'', ''slower'', ''veryslow'']"

definition resolutions :: "string list" where
  "resolutions = [''source'', ''1080p'', ''720p'', ''480p'']"

definition audioBitrates :: "string list" where
  "audioBitrates = [''64k'', ''96k'', ''128k'', ''160k'', ''192k'', ''256k'']"

definition valid_settings :: "EncodeSettings \<Rightarrow> bool" where
  "valid_settings st =
     (preset st \<in> set presets \<and> 18 \<le> crf st \<and> crf st \<le> 28 \<and>
      resolution st \<in> set resolutions \<and> audioBitrate st \<in> set audioBitrates)"

text \<open>Where a flag stands in an argument list: the indices \<open>i\<close> at which the option token
  \<open>k\<close> is followed directly by its value \<open>v\<close>.\<close>

fun flag_positions_from :: "nat \<Rightarrow> string \<Rightarrow> string \<Rightarrow> string list \<Rightarrow> nat list" where
  "flag_positions_from i k v (a # b # xs) =
     (if a = k \<and> b = v then [i] else []) @ flag_positions_from (Suc i) k v (b # xs)"
| "flag_positions_from i k v xs = []"

definition flag_positions :: "string \<Rightarrow> string \<Rightarrow> string list \<Rightarrow> nat list" where
  "flag_positions k v xs = flag_positions_from 0 k v xs"

subsection \<open>The component's state\<close>

type_synonym bytes = "nat list"

record File =
  file_name :: string
  file_data :: bytes

text \<open>The four texts \<open>loadingMsg\<close> takes (lines 26, 68, 75 and 78).\<close>

datatype loading_msg = Msg_initializing | Msg_fetching | Msg_empty | Msg_failed

text \<open>
  How an awaited promise settles. The value a promise is fulfilled with is read by the
  source only after \<open>fetchFile\<close> and \<open>readFile\<close>, where it is the bytes.
\<close>

datatype settled = Fulfilled bytes | Rejected

text \<open>
  A call of \<open>start\<close> that has passed its guard is suspended at one of its six \<open>await\<close>s
  (lines 101, 101, 132, 133, 144, 145) until it ends. It runs in the closure of the render
  in which the button was clicked, so it keeps the settings and the file of that moment.
\<close>

datatype phase = Fetching | Writing | Executing | Reading | Deleting_input | Deleting_output

record job =
  job_phase :: phase
  job_settings :: EncodeSettings
  job_file :: File

text \<open>The calls made to the external encoder and its utilities, in the order issued.\<close>

datatype call =
    Call_fetchFile File
  | Call_writeFile string bytes
  | Call_exec "string list"
  | Call_readFile string
  | Call_deleteFile string

text \<open>
  The state cells of lines 25-40, and what the component has set in motion outside itself:
  whether the load of line 69 is pending, the suspended calls of \<open>start\<close>, the calls issued
  to the encoder and the texts shown by \<open>alert\<close>. The size cells of lines 159-168 only
  mirror \<open>file\<close> and \<open>outputBlob\<close> and are left out.
\<close>

record component =
  ffmpegReady :: bool
  loadingMsg :: loading_msg
  logLines :: "string list"
  "file" :: "File option"
  outputBlob :: "bytes option"
  processing :: bool
  progress :: number
  settings :: EncodeSettings
  ffmpegRef :: bool
  loading :: bool
  jobs :: "job list"
  calls :: "call list"
  alerts :: "string list"

definition init :: component where
  "init = \<lparr>ffmpegReady = False, loadingMsg = Msg_initializing, logLines = [], file = None,
           outputBlob = None, processing = False, progress = Fin 0,
           settings = \<lparr>preset = ''medium'', crf = 23, resolution = ''source'',
                        audioBitrate = ''128k'', copyMetadata = True\<rparr>,
           ffmpegRef = False, loading = False, jobs = [], calls = [], alerts = []\<rparr>"

subsection \<open>The encoder's event handlers (lines 48-63)\<close>

text \<open>The test \<open>/time=\d{2}:\d{2}:\d{2}/.test(message)\<close>: the pattern is looked for at
  every position of the message.\<close>

definition is_digit :: "char \<Rightarrow> bool" where
  "is_digit c = (c \<in> set ''0123456789'')"

fun eat_lit :: "string \<Rightarrow> string \<Rightarrow> string option" where
  "eat_lit [] s = Some s"
| "eat_lit (p # ps) [] = None"
| "eat_lit (p # ps) (c # cs) = (if p = c then eat_lit ps cs else None)"

fun eat_digits2 :: "string \<Rightarrow> string option" where
  "eat_digits2 (a # b # rest) = (if is_digit a \<and> is_digit b then Some rest else None)"
| "eat_digits2 _ = None"

definition time_match_here :: "string \<Rightarrow> bool" where
  "time_match_here s =
     (Option.bind (eat_lit ''time='' s) (\<lambda>s.
      Option.bind (eat_digits2 s) (\<lambda>s.
      Option.bind (eat_lit '':'' s) (\<lambda>s.
      Option.bind (eat_digits2 s) (\<lambda>s.
      Option.bind (eat_lit '':'' s) eat_digits2)))) \<noteq> None)"

fun time_regex_test :: "string \<Rightarrow> bool" where
  "time_regex_test [] = False"
| "time_regex_test (c # cs) = (time_match_here (c # cs) \<or> time_regex_test cs)"

text \<open>The updater of line 53, \<open>p < 95 ? p + 0.5 : p\<close>.\<close>

definition nudge :: "number \<Rightarrow> number" where
  "nudge p = (if js_less p (Fin 95) then js_add p (1 / 2) else p)"

text \<open>The log handler: the line is appended, the buffer cut to its last 200 lines, and a
  line that shows a timestamp nudges the progress.\<close>

definition on_log :: "string \<Rightarrow> component \<Rightarrow> component" where
  "on_log message s =
     (let next = logLines s @ [message];
          s = (if time_regex_test message then s\<lparr>progress := nudge (progress s)\<rparr> else s)
      in s\<lparr>logLines := slice_last 200 next\<rparr>)"

text \<open>The progress handler.\<close>

definition on_progress :: "number \<Rightarrow> component \<Rightarrow> component" where
  "on_progress p s =
     (if \<not> Number_isNaN p
      then s\<lparr>progress := Math_min (Fin 100) (Math_round (js_mul p 100))\<rparr>
      else s)"

subsection \<open>Loading the encoder (lines 42-82)\<close>

text \<open>
  The effect returns at once when the encoder exists already. Otherwise it creates the
  encoder, registers the two handlers and starts the load; the awaits of lines 69-73 are
  taken as one promise, whose rejection is caught at line 76.
\<close>

definition load :: "component \<Rightarrow> component" where
  "load s =
     (if ffmpegRef s then s
      else s\<lparr>ffmpegRef := True, loadingMsg := Msg_fetching, loading := True\<rparr>)"

definition load_settled :: "settled \<Rightarrow> component \<Rightarrow> component" where
  "load_settled r s =
     (case r of
        Fulfilled v \<Rightarrow> s\<lparr>ffmpegReady := True, loadingMsg := Msg_empty, loading := False\<rparr>
      | Rejected \<Rightarrow> s\<lparr>loadingMsg := Msg_failed, loading := False\<rparr>)"

subsection \<open>Picking a file and starting a run (lines 84-148)\<close>

definition onDrop :: "File \<Rightarrow> component \<Rightarrow> component" where
  "onDrop picked s =
     s\<lparr>file := Some picked, outputBlob := None, logLines := [], progress := Fin 0\<rparr>"

definition issue :: "call \<Rightarrow> component \<Rightarrow> component" where
  "issue c s = s\<lparr>calls := calls s @ [c]\<rparr>"

text \<open>\<open>start\<close> up to its first \<open>await\<close>.\<close>

definition start :: "component \<Rightarrow> component" where
  "start s =
     (case file s of
        None \<Rightarrow> s
      | Some f \<Rightarrow>
          if \<not> ffmpegRef s then s
          else issue (Call_fetchFile f)
                 (s\<lparr>processing := True, outputBlob := None, progress := Fin 0,
                    jobs := jobs s @ [\<lparr>job_phase = Fetching, job_settings = settings s,
                                       job_file = f\<rparr>]\<rparr>))"

definition set_phase :: "nat \<Rightarrow> phase \<Rightarrow> component \<Rightarrow> component" where
  "set_phase i ph s = s\<lparr>jobs := (jobs s)[i := (jobs s ! i)\<lparr>job_phase := ph\<rparr>]\<rparr>"

definition end_job :: "nat \<Rightarrow> component \<Rightarrow> component" where
  "end_job i s = s\<lparr>jobs := take i (jobs s) @ drop (Suc i) (jobs s)\<rparr>"

text \<open>The \<open>catch\<close> of lines 137-139 (its \<open>console.error\<close> shows nothing to the user and
  is left out) and the \<open>finally\<close> of lines 140-147 up to its first \<open>await\<close>.\<close>

definition catch_block :: "component \<Rightarrow> component" where
  "catch_block s = s\<lparr>alerts := alerts s @ [''Encoding failed. See log below for details.'']\<rparr>"

definition finally_block :: "nat \<Rightarrow> component \<Rightarrow> component" where
  "finally_block i s =
     issue (Call_deleteFile inputName) (set_phase i Deleting_input (s\<lparr>processing := False\<rparr>))"

text \<open>
  The call of \<open>start\<close> with index \<open>i\<close> resumes with the outcome \<open>r\<close> of what it awaited.
  The awaits of line 101 are outside the \<open>try\<close>: a rejection there ends the call and
  nothing else happens. The deletions share one \<open>try\<close> with an empty \<open>catch\<close>.
\<close>

definition resume :: "nat \<Rightarrow> settled \<Rightarrow> component \<Rightarrow> component" where
  "resume i r s =
     (case (job_phase (jobs s ! i), r) of
        (Fetching, Fulfilled d) \<Rightarrow> issue (Call_writeFile inputName d) (set_phase i Writing s)
      | (Fetching, Rejected) \<Rightarrow> end_job i s
      | (Writing, Fulfilled v) \<Rightarrow>
          issue (Call_exec (start_args (job_settings (jobs s ! i)))) (set_phase i Executing s)
      | (Writing, Rejected) \<Rightarrow> end_job i s
      | (Executing, Fulfilled v) \<Rightarrow> issue (Call_readFile outputName) (set_phase i Reading s)
      | (Executing, Rejected) \<Rightarrow> finally_block i (catch_block s)
      | (Reading, Fulfilled d) \<Rightarrow>
          finally_block i (s\<lparr>outputBlob := Some d, progress := Fin 100\<rparr>)
      | (Reading, Rejected) \<Rightarrow> finally_block i (catch_block s)
      | (Deleting_input, Fulfilled v) \<Rightarrow>
          issue (Call_deleteFile outputName) (set_phase i Deleting_output s)
      | (Deleting_input, Rejected) \<Rightarrow> end_job i s
      | (Deleting_output, r) \<Rightarrow> end_job i s)"

subsection \<open>The component as a transition system\<close>

text \<open>
  Everything that can happen to the mounted component: the effect runs, the load settles,
  the encoder emits a log line or a progress value, the user picks a file, changes an
  option or clicks the start button, and an awaited call settles.
\<close>

datatype event =
    Mount
  | Load_settled settled
  | Log string
  | Progress number
  | Pick File
  | Set_preset string
  | Set_crf int
  | Set_resolution string
  | Set_audioBitrate string
  | Set_copyMetadata bool
  | Click_start
  | Settle nat settled

text \<open>
  The start button carries \<open>disabled={!ffmpegReady || !file || processing}\<close> (line 320): a
  click on it reaches \<open>start\<close> only when it is enabled. The handlers of the encoder exist
  once the effect has created it. The option controls offer the values listed above. The
  download button (lines 170-180) changes no state cell and is left out.
\<close>

definition start_disabled :: "component \<Rightarrow> bool" where
  "start_disabled s = (\<not> ffmpegReady s \<or> file s = None \<or> processing s)"

fun step :: "component \<Rightarrow> event \<Rightarrow> component" where
  "step s Mount = load s"
| "step s (Load_settled r) = (if loading s then load_settled r s else s)"
| "step s (Log message) = (if ffmpegRef s then on_log message s else s)"
| "step s (Progress p) = (if ffmpegRef s then on_progress p s else s)"
| "step s (Pick picked) = onDrop picked s"
| "step s (Set_preset v) =
     (if v \<in> set presets then s\<lparr>settings := (settings s)\<lparr>preset := v\<rparr>\<rparr> else s)"
| "step s (Set_crf v) =
     (if 18 \<le> v \<and> v \<le> 28 then s\<lparr>settings := (settings s)\<lparr>crf := v\<rparr>\<rparr> else s)"
| "step s (Set_resolution v) =
     (if v \<in> set resolutions then s\<lparr>settings := (settings s)\<lparr>resolution := v\<rparr>\<rparr> else s)"
| "step s (Set_audioBitrate v) =
     (if v \<in> set audioBitrates then s\<lparr>settings := (settings s)\<lparr>audioBitrate := v\<rparr>\<rparr> else s)"
| "step s (Set_copyMetadata v) = s\<lparr>settings := (settings s)\<lparr>copyMetadata := v\<rparr>\<rparr>"
| "step s Click_start = (if start_disabled s then s else start s)"
| "step s (Settle i r) = (if i < length (jobs s) then resume i r s else s)"

definition run :: "event list \<Rightarrow> component" where
  "run evs = foldl step init evs"

section \<open>Notions used to state the properties\<close>

subsection \<open>Argument lists\<close>

text \<open>The values of the options are none of the option tokens the list is built from.\<close>

definition option_tokens :: "string list" where
  "option_tokens = [''-i'', ''-map_metadata'', ''0'', ''-movflags'', ''use_metadata_tags'',
     ''-c:v'', ''libx264'', ''-preset'', ''-crf'', ''-vf'', ''-c:a'', ''aac'', ''-b:a'',
     ''+faststart'']"

text \<open>A token is a scale filter when it starts with \<open>scale=\<close>.\<close>

definition is_scale_filter :: "string \<Rightarrow> bool" where
  "is_scale_filter t = (take 6 t = ''scale='')"

definition example_settings :: EncodeSettings where
  "example_settings = \<lparr>preset = ''medium'', crf = 23, resolution = ''720p'',
                        audioBitrate = ''128k'', copyMetadata = True\<rparr>"


subsection \<open>Runs of the component\<close>

text \<open>A call of \<open>start\<close> is encoding until it reaches its \<open>finally\<close>.\<close>

definition encoding :: "job \<Rightarrow> bool" where
  "encoding j = (job_phase j \<in> {Fetching, Writing, Executing, Reading})"

text \<open>
  The progress values the handlers can produce: minus infinity (from a progress payload of
  minus infinity), or a multiple of one half that is at most 100.
\<close>

fun half_integral :: "number \<Rightarrow> bool" where
  "half_integral (Fin q) = (q \<le> 100 \<and> of_int \<lfloor>2 * q\<rfloor> = 2 * q)"
| "half_integral NegInf = True"
| "half_integral _ = False"

text \<open>An event whose progress payload, if it has one, is not negative.\<close>

fun payload_nonneg :: "event \<Rightarrow> bool" where
  "payload_nonneg (Progress p) = (Number_isNaN p \<or> js_le (Fin 0) p)"
| "payload_nonneg _ = True"

text \<open>
  An example: the encoder loads, the user picks a file and clicks start, the file is
  fetched and written, and the encoder is running.
\<close>

definition example_file :: File where
  "example_file = \<lparr>file_name = ''clip.mp4'', file_data = [0, 0, 0, 24]\<rparr>"

definition encoding_trace :: "event list" where
  "encoding_trace = [Mount, Load_settled (Fulfilled []), Pick example_file, Click_start,
     Settle 0 (Fulfilled [0, 0, 0, 24]), Settle 0 (Fulfilled [])]"

text \<open>The example goes on: one log line, the run succeeds, the output is read and both
  files are deleted.\<close>

definition done_trace :: "event list" where
  "done_trace = encoding_trace @ [Log ''time=00:00:01'', Settle 0 (Fulfilled []),
     Settle 0 (Fulfilled [7]), Settle 0 (Fulfilled []), Settle 0 (Fulfilled [])]"


text \<open>The example with a failing run: the encoder rejects the run, and then the deletion
  of the input file.\<close>

definition failed_trace :: "event list" where
  "failed_trace = encoding_trace @ [Settle 0 Rejected]"

text \<open>At most one call of \<open>start\<close> is encoding, and then \<open>processing\<close> is set.\<close>

definition one_encoding :: "component \<Rightarrow> bool" where
  "one_encoding s =
     (length (filter encoding (jobs s)) \<le> 1 \<and> (length (filter encoding (jobs s)) = 0 \<or> processing s))"

text \<open>A call of \<open>start\<close> that waits for the deletion of the input file, and the relation
  between the deletions issued: those of the output file, together with the calls still
  waiting for the deletion of the input file, are no more than those of the input file.\<close>

definition awaits_input_deletion :: "job \<Rightarrow> bool" where
  "awaits_input_deletion j = (job_phase j = Deleting_input)"

definition cleanup_counts :: "component \<Rightarrow> bool" where
  "cleanup_counts s =
     (count_list (calls s) (Call_deleteFile outputName) +
        length (filter awaits_input_deletion (jobs s)) \<le>
      count_list (calls s) (Call_deleteFile inputName))"
section \<open>Rounding to binary64\<close>

lemma pow2_pos: "0 < pow2 k"
  by (simp add: pow2_def)

lemma pow2_double: "2 * pow2 k = pow2 (k + 1)"
proof (cases "0 \<le> k")
  case True
  then show ?thesis by (simp add: pow2_def nat_add_distrib)
next
  case False
  then have "nat (- k) = Suc (nat (- k - 1))" by simp
  then have "(2::rat) ^ nat (- k) = 2 * 2 ^ nat (- k - 1)" by simp
  with False show ?thesis by (simp add: pow2_def)
qed

lemma round_even_of_int: "round_even (of_int m) = m"
  by (simp add: round_even_def)

lemma round_even_nonneg: "0 \<le> x \<Longrightarrow> 0 \<le> round_even x"
  by (auto simp: round_even_def Let_def)

text \<open>The shape of a rounded value.\<close>

lemma round_double_shape:
  assumes "q \<noteq> 0"
  obtains e r where "e = max (floor_log2 \<bar>q\<bar>) (- 1022)"
    and "r = of_int (round_even (\<bar>q\<bar> / pow2 (e - 52))) * pow2 (e - 52)"
    and "0 \<le> r"
    and "round_double q =
      (if pow2 1024 \<le> r then (if q < 0 then NegInf else PosInf)
       else Fin (if q < 0 then - r else r))"
proof -
  let ?e = "max (floor_log2 \<bar>q\<bar>) (- 1022)"
  let ?r = "of_int (round_even (\<bar>q\<bar> / pow2 (?e - 52))) * pow2 (?e - 52)"
  have "0 \<le> \<bar>q\<bar> / pow2 (?e - 52)"
    using pow2_pos [of "?e - 52"] by simp
  then have "0 \<le> round_even (\<bar>q\<bar> / pow2 (?e - 52))"
    by (rule round_even_nonneg)
  then have "0 \<le> ?r"
    using pow2_pos [of "?e - 52"] by simp
  moreover have "round_double q =
      (if pow2 1024 \<le> ?r then (if q < 0 then NegInf else PosInf)
       else Fin (if q < 0 then - ?r else ?r))"
    using assms by (simp add: round_double_def Let_def)
  ultimately show thesis
    using that [of ?e ?r] by blast
qed

lemma round_double_not_NaN: "round_double q \<noteq> NaN"
  by (simp add: round_double_def Let_def)

lemma round_double_nonneg: "0 \<le> q \<Longrightarrow> js_le (Fin 0) (round_double q)"
proof (cases "q = 0")
  case True
  then show ?thesis by (simp add: round_double_def)
next
  case False
  assume "0 \<le> q"
  from False obtain e r where "0 \<le> r" and "round_double q =
      (if pow2 1024 \<le> r then (if q < 0 then NegInf else PosInf)
       else Fin (if q < 0 then - r else r))"
    by (rule round_double_shape)
  with \<open>0 \<le> q\<close> show ?thesis by simp
qed

lemma round_double_nonpos: "q \<le> 0 \<Longrightarrow> js_le (round_double q) (Fin 0)"
proof (cases "q = 0")
  case True
  then show ?thesis by (simp add: round_double_def)
next
  case False
  assume "q \<le> 0"
  with False have neg: "q < 0" by simp
  from False obtain e r where "0 \<le> r" and "round_double q =
      (if pow2 1024 \<le> r then (if q < 0 then NegInf else PosInf)
       else Fin (if q < 0 then - r else r))"
    by (rule round_double_shape)
  with neg show ?thesis by simp
qed

text \<open>A multiple of one half rounds to a multiple of one half, and to itself when the
  exponent chosen is at most 51.\<close>

lemma round_exact:
  assumes k: "2 * x = of_int k" and e: "e \<le> 51"
  shows "of_int (round_even (x / pow2 (e - 52))) * pow2 (e - 52) = x"
proof -
  have d: "2 * pow2 (e - 52) = pow2 (e - 51)"
    by (simp add: pow2_double)
  have i: "1 / pow2 (e - 51) = 2 ^ nat (51 - e)"
    using e by (cases "e = 51") (simp_all add: pow2_def)
  have "x / pow2 (e - 52) = (2 * x) / (2 * pow2 (e - 52))" by simp
  also have "\<dots> = of_int k / pow2 (e - 51)"
    by (simp only: k d)
  also have "\<dots> = of_int k * (1 / pow2 (e - 51))" by simp
  also have "\<dots> = of_int k * 2 ^ nat (51 - e)"
    by (simp only: i)
  finally have q: "x / pow2 (e - 52) = of_int (k * 2 ^ nat (51 - e))" by simp
  then have "round_even (x / pow2 (e - 52)) = k * 2 ^ nat (51 - e)"
    by (simp only: round_even_of_int)
  with q have "of_int (round_even (x / pow2 (e - 52))) = x / pow2 (e - 52)"
    by simp
  then show ?thesis using pow2_pos [of "e - 52"] by simp
qed

lemma round_half_integer:
  assumes k: "2 * x = of_int k"
  shows "\<exists>m. 2 * (of_int (round_even (x / pow2 (e - 52))) * pow2 (e - 52)) = of_int m"
proof (cases "51 \<le> e")
  case True
  then have "pow2 (e - 52 + 1) = 2 ^ nat (e - 51)" by (simp add: pow2_def)
  then have "2 * pow2 (e - 52) = of_int (2 ^ nat (e - 51))"
    by (simp add: pow2_double)
  then have "2 * (of_int (round_even (x / pow2 (e - 52))) * pow2 (e - 52)) =
      of_int (round_even (x / pow2 (e - 52)) * 2 ^ nat (e - 51))"
    by simp
  then show ?thesis by blast
next
  case False
  then have "e \<le> 51" by simp
  with k have "of_int (round_even (x / pow2 (e - 52))) * pow2 (e - 52) = x"
    by (rule round_exact)
  with k show ?thesis by auto
qed

text \<open>Bit lengths and exponents.\<close>

lemma bitlength_le: "n < 2 ^ m \<Longrightarrow> bitlength n \<le> m"
proof (induction m arbitrary: n)
  case 0
  then show ?case by (simp add: bitlength.simps [of n])
next
  case (Suc m)
  show ?case
  proof (cases "n \<le> 0")
    case True
    then show ?thesis by (simp add: bitlength.simps [of n])
  next
    case False
    from Suc.prems have "n div 2 < 2 ^ m" by simp
    then have "bitlength (n div 2) \<le> m" by (rule Suc.IH)
    with False show ?thesis by (simp add: bitlength.simps [of n])
  qed
qed

lemma bitlength_ge: "2 ^ m \<le> n \<Longrightarrow> Suc m \<le> bitlength n"
proof (induction m arbitrary: n)
  case 0
  then show ?case by (simp add: bitlength.simps [of n])
next
  case (Suc m)
  then have pos: "0 < n"
    by (smt (verit) zero_less_power)
  from Suc.prems have "2 ^ m \<le> n div 2" by simp
  then have "Suc m \<le> bitlength (n div 2)" by (rule Suc.IH)
  with pos show ?case by (simp add: bitlength.simps [of n])
qed

lemma floor_log2_less:
  assumes "0 < x" and "x < 2 ^ m"
  shows "floor_log2 x < int m"
proof (cases "1 \<le> x")
  case True
  from assms have "x < of_int (2 ^ m)" by simp
  then have "\<lfloor>x\<rfloor> < 2 ^ m" by (simp only: floor_less_iff)
  then have "bitlength \<lfloor>x\<rfloor> \<le> m" by (rule bitlength_le)
  moreover from True have "1 \<le> \<lfloor>x\<rfloor>" by simp
  then have "2 ^ 0 \<le> \<lfloor>x\<rfloor>" by simp
  then have "Suc 0 \<le> bitlength \<lfloor>x\<rfloor>" by (rule bitlength_ge)
  ultimately show ?thesis using True by (simp add: floor_log2_def)
next
  case False
  with assms have "1 < 1 / x" by simp
  then have "2 \<le> \<lceil>1 / x\<rceil>" by (simp add: le_ceiling_iff) 
  then have "2 ^ 0 \<le> \<lceil>1 / x\<rceil> - 1" by simp
  then have "Suc 0 \<le> bitlength (\<lceil>1 / x\<rceil> - 1)" by (rule bitlength_ge)
  with False show ?thesis by (simp add: floor_log2_def)
qed

text \<open>The exponent is the right one: \<open>2^e \<le> q < 2^(e+1)\<close>.\<close>

lemma bitlength_bounds:
  assumes "0 < n"
  shows "2 ^ (bitlength n - 1) \<le> n" and "n < 2 ^ bitlength n"
proof -
  have "\<not> bitlength n \<le> bitlength n - 1"
    using assms by (simp add: bitlength.simps [of n])
  then have "\<not> n < 2 ^ (bitlength n - 1)"
    using bitlength_le [of n "bitlength n - 1"] by blast
  then show "2 ^ (bitlength n - 1) \<le> n" by simp
  have "\<not> Suc (bitlength n) \<le> bitlength n" by simp
  then have "\<not> 2 ^ bitlength n \<le> n"
    using bitlength_ge [of "bitlength n" n] by blast
  then show "n < 2 ^ bitlength n" by simp
qed

lemma floor_log2_bounds:
  assumes "0 < q"
  shows "pow2 (floor_log2 q) \<le> q" and "q < pow2 (floor_log2 q + 1)"
proof -
  show "pow2 (floor_log2 q) \<le> q"
  proof (cases "1 \<le> q")
    case True
    then have pos: "0 < \<lfloor>q\<rfloor>" by simp
    then have b: "0 < bitlength \<lfloor>q\<rfloor>" by (simp add: bitlength.simps [of "\<lfloor>q\<rfloor>"])
    from pos have "2 ^ (bitlength \<lfloor>q\<rfloor> - 1) \<le> \<lfloor>q\<rfloor>" by (rule bitlength_bounds)
    then have "rat_of_int (2 ^ (bitlength \<lfloor>q\<rfloor> - 1)) \<le> of_int \<lfloor>q\<rfloor>"
      by (simp only: of_int_le_iff)
    also have "\<dots> \<le> q" by simp
    finally have "2 ^ (bitlength \<lfloor>q\<rfloor> - 1) \<le> q" by simp
    moreover have "nat (int (bitlength \<lfloor>q\<rfloor>) - 1) = bitlength \<lfloor>q\<rfloor> - 1" by simp
    ultimately show ?thesis using True b by (simp add: floor_log2_def pow2_def)
  next
    case False
    let ?c = "\<lceil>1 / q\<rceil>"
    from False assms have "1 < 1 / q" by simp
    then have c: "2 \<le> ?c" by (simp add: le_ceiling_iff)
    then have "?c - 1 < 2 ^ bitlength (?c - 1)" by (intro bitlength_bounds) simp
    then have "?c \<le> 2 ^ bitlength (?c - 1)" by simp
    then have "1 / q \<le> of_int (2 ^ bitlength (?c - 1))"
      by (simp only: ceiling_le_iff)
    then have "1 / q \<le> 2 ^ bitlength (?c - 1)" by simp
    with assms have "1 / 2 ^ bitlength (?c - 1) \<le> q"
      by (simp add: field_simps)
    moreover from c have "0 < bitlength (?c - 1)"
      by (simp add: bitlength.simps [of "?c - 1"])
    ultimately show ?thesis using False by (simp add: floor_log2_def pow2_def)
  qed
  show "q < pow2 (floor_log2 q + 1)"
  proof (cases "1 \<le> q")
    case True
    then have pos: "0 < \<lfloor>q\<rfloor>" by simp
    then have "\<lfloor>q\<rfloor> < 2 ^ bitlength \<lfloor>q\<rfloor>" by (rule bitlength_bounds)
    then have "q < of_int (2 ^ bitlength \<lfloor>q\<rfloor>)"
      by (simp only: floor_less_iff)
    then have "q < 2 ^ bitlength \<lfloor>q\<rfloor>" by simp
    with True show ?thesis by (simp add: floor_log2_def pow2_def)
  next
    case False
    let ?c = "\<lceil>1 / q\<rceil>"
    let ?b = "bitlength (?c - 1)"
    from False assms have "1 < 1 / q" by simp
    then have c: "2 \<le> ?c" by (simp add: le_ceiling_iff)
    then have b: "0 < ?b" by (simp add: bitlength.simps [of "?c - 1"])
    from c have "2 ^ (?b - 1) \<le> ?c - 1" by (intro bitlength_bounds) simp
    then have "2 ^ (?b - 1) < ?c" by simp
    then have "of_int (2 ^ (?b - 1)) < 1 / q"
      by (simp only: less_ceiling_iff)
    then have "2 ^ (?b - 1) < 1 / q" by simp
    with assms have lt: "q < 1 / 2 ^ (?b - 1)"
      by (simp add: field_simps)
    show ?thesis
    proof (cases "?b = 1")
      case True
      with lt False show ?thesis by (simp add: floor_log2_def pow2_def)
    next
      case False
      with b have "nat (int ?b - 1) = ?b - 1" "\<not> 0 \<le> 1 - int ?b" by simp_all
      with lt \<open>\<not> 1 \<le> q\<close> show ?thesis by (simp add: floor_log2_def pow2_def)
    qed
  qed
qed


text \<open>Multiples of one half: exact below \<open>2^52\<close>, and rounded to such multiples always.\<close>

lemma round_double_exact:
  assumes k: "2 * q = of_int k" and small: "\<bar>q\<bar> < 2 ^ 52"
  shows "round_double q = Fin q"
proof (cases "q = 0")
  case True
  then show ?thesis by (simp add: round_double_def)
next
  case False
  then obtain e r where e: "e = max (floor_log2 \<bar>q\<bar>) (- 1022)"
    and r: "r = of_int (round_even (\<bar>q\<bar> / pow2 (e - 52))) * pow2 (e - 52)"
    and rd: "round_double q =
      (if pow2 1024 \<le> r then (if q < 0 then NegInf else PosInf)
       else Fin (if q < 0 then - r else r))"
    by (rule round_double_shape)
  from False small have "floor_log2 \<bar>q\<bar> < int 52"
    by (intro floor_log2_less) simp_all
  with e have e51: "e \<le> 51" by simp
  from k have "2 * \<bar>q\<bar> = of_int \<bar>k\<bar>"
    by (simp add: abs_mult [symmetric] del: abs_mult)
  then have "of_int (round_even (\<bar>q\<bar> / pow2 (e - 52))) * pow2 (e - 52) = \<bar>q\<bar>"
    using e51 by (rule round_exact)
  with r have rq: "r = \<bar>q\<bar>" by simp
  have "(2::rat) ^ 52 \<le> 2 ^ 1024" by (rule power_increasing) simp_all
  with small have "\<not> pow2 1024 \<le> \<bar>q\<bar>" by (simp add: pow2_def)
  with rd rq show ?thesis by simp
qed

lemma round_double_half_integer:
  assumes k: "2 * q = of_int k"
  shows "round_double q = NegInf \<or> round_double q = PosInf \<or>
         (\<exists>r m. round_double q = Fin r \<and> 2 * r = of_int m)"
proof (cases "q = 0")
  case True
  then show ?thesis by (simp add: round_double_def)
next
  case False
  then obtain e r where e: "e = max (floor_log2 \<bar>q\<bar>) (- 1022)"
    and r: "r = of_int (round_even (\<bar>q\<bar> / pow2 (e - 52))) * pow2 (e - 52)"
    and rd: "round_double q =
      (if pow2 1024 \<le> r then (if q < 0 then NegInf else PosInf)
       else Fin (if q < 0 then - r else r))"
    by (rule round_double_shape)
  from k have "2 * \<bar>q\<bar> = of_int \<bar>k\<bar>"
    by (simp add: abs_mult [symmetric] del: abs_mult)
  then obtain m where "2 * (of_int (round_even (\<bar>q\<bar> / pow2 (e - 52))) * pow2 (e - 52)) = of_int m"
    using round_half_integer [of "\<bar>q\<bar>" "\<bar>k\<bar>" e] by blast
  with r have m: "2 * r = of_int m" by simp
  then have m': "2 * (- r) = of_int (- m)" by simp
  show ?thesis
  proof (cases "pow2 1024 \<le> r")
    case True
    with rd show ?thesis by simp
  next
    case False
    with rd have "round_double q = Fin (if q < 0 then - r else r)" by simp
    moreover have "\<exists>m. 2 * (if q < 0 then - r else r) = rat_of_int m"
      using m m' by (cases "q < 0") (simp_all only: if_True if_False, blast+)
    ultimately show ?thesis by blast
  qed
qed

text \<open>Evaluating a rounding step by step.\<close>

lemma round_double_eval:
  assumes "q \<noteq> 0" and "max (floor_log2 \<bar>q\<bar>) (- 1022) = e"
    and "round_even (\<bar>q\<bar> / pow2 (e - 52)) = n"
  shows "round_double q =
     (if pow2 1024 \<le> of_int n * pow2 (e - 52) then (if q < 0 then NegInf else PosInf)
      else Fin (if q < 0 then - (of_int n * pow2 (e - 52)) else of_int n * pow2 (e - 52)))"
proof -
  from assms(1) obtain e' r where "e' = max (floor_log2 \<bar>q\<bar>) (- 1022)"
    and "r = of_int (round_even (\<bar>q\<bar> / pow2 (e' - 52))) * pow2 (e' - 52)"
    and rd: "round_double q =
      (if pow2 1024 \<le> r then (if q < 0 then NegInf else PosInf)
       else Fin (if q < 0 then - r else r))"
    by (rule round_double_shape)
  with assms(2,3) have "r = of_int n * pow2 (e - 52)" by simp
  with rd show ?thesis by simp
qed

text \<open>
  The binary64 value nearest to 0.995 lies below 0.995; its product with 100 rounds to
  99.5.
\<close>

lemma round_double_995:
  "round_double (8962163258467287 / 9007199254740992 * 100) = Fin (199 / 2)"
proof -
  let ?q = "8962163258467287 / 9007199254740992 * 100 :: rat"
  have f: "\<lfloor>?q\<rfloor> = 99" by (simp add: floor_eq_iff)
  have "floor_log2 \<bar>?q\<bar> = 6"
    by (simp add: floor_log2_def f [simplified] bitlength.simps)
  then have e: "max (floor_log2 \<bar>?q\<bar>) (- 1022) = 6" by simp
  have "\<lfloor>\<bar>?q\<bar> / pow2 (6 - 52)\<rfloor> = 7001690045677567"
    by (simp add: pow2_def floor_eq_iff)
  then have n: "round_even (\<bar>?q\<bar> / pow2 (6 - 52)) = 7001690045677568"
    by (simp add: round_even_def Let_def pow2_def)
  have r: "rat_of_int 7001690045677568 * pow2 (6 - 52) = 199 / 2"
    by (simp add: pow2_def)
  have "(2::rat) ^ 7 \<le> 2 ^ 1024" by (rule power_increasing) simp_all
  then have "\<not> pow2 1024 \<le> 199 / 2" by (simp add: pow2_def)
  then show ?thesis
    using round_double_eval [OF _ e n] by (simp only: r) simp
qed


text \<open>A magnitude of \<open>2^1024\<close> or more rounds to an infinity.\<close>

lemma pow2_powi: "pow2 k = 2 powi k"
  by (simp add: pow2_def power_int_def power_inverse [symmetric] inverse_eq_divide power_one_over)

lemma round_even_ge: "of_int z \<le> x \<Longrightarrow> z \<le> round_even x"
proof -
  assume "of_int z \<le> x"
  then have "z \<le> \<lfloor>x\<rfloor>" by (simp add: le_floor_iff)
  then show ?thesis by (simp add: round_even_def Let_def)
qed

lemma round_double_overflow:
  assumes big: "pow2 1024 \<le> \<bar>q\<bar>"
  shows "round_double q = (if q < 0 then NegInf else PosInf)"
proof -
  let ?a = "\<bar>q\<bar>"
  from big pow2_pos [of 1024] have pos: "0 < ?a" by linarith
  then have "q \<noteq> 0" by simp
  then obtain e r where e: "e = max (floor_log2 ?a) (- 1022)"
    and r: "r = of_int (round_even (?a / pow2 (e - 52))) * pow2 (e - 52)"
    and rd: "round_double q =
      (if pow2 1024 \<le> r then (if q < 0 then NegInf else PosInf)
       else Fin (if q < 0 then - r else r))"
    by (rule round_double_shape)
  from pos have lo: "pow2 (floor_log2 ?a) \<le> ?a" and hi: "?a < pow2 (floor_log2 ?a + 1)"
    by (rule floor_log2_bounds)+
  from big hi have lt: "(2::rat) powi 1024 < 2 powi (floor_log2 ?a + 1)"
    by (simp only: pow2_powi)
  have "1024 < floor_log2 ?a + 1"
  proof (rule ccontr)
    assume "\<not> 1024 < floor_log2 ?a + 1"
    then have "floor_log2 ?a + 1 \<le> 1024" by simp
    then have "(2::rat) powi (floor_log2 ?a + 1) \<le> 2 powi 1024"
      by (rule power_int_increasing) simp
    with lt show False by simp
  qed
  with e have e0: "e = floor_log2 ?a" and e1024: "1024 \<le> e" by simp_all
  have split: "pow2 e = 2 ^ 52 * pow2 (e - 52)"
  proof -
    have "(2::rat) powi e = 2 powi (52 + (e - 52))" by simp
    also have "\<dots> = 2 powi 52 * 2 powi (e - 52)"
      by (rule power_int_add) simp
    finally show ?thesis by (simp add: pow2_powi)
  qed
  from lo e0 have "pow2 e \<le> ?a" by simp
  then have "2 ^ 52 * pow2 (e - 52) \<le> ?a" by (simp only: split [symmetric])
  then have "rat_of_int (2 ^ 52) \<le> ?a / pow2 (e - 52)"
    using pow2_pos [of "e - 52"] by (simp add: pos_le_divide_eq)
  then have "2 ^ 52 \<le> round_even (?a / pow2 (e - 52))"
    by (rule round_even_ge)
  then have "rat_of_int (2 ^ 52) \<le> of_int (round_even (?a / pow2 (e - 52)))"
    by (simp only: of_int_le_iff)
  then have "rat_of_int (2 ^ 52) * pow2 (e - 52) \<le> r"
    using pow2_pos [of "e - 52"] by (simp add: r)
  then have "pow2 e \<le> r" by (simp add: split)
  moreover from e1024 have "(2::rat) powi 1024 \<le> 2 powi e"
    by (intro power_int_increasing) simp_all
  ultimately have "pow2 1024 \<le> r" by (simp add: pow2_powi)
  with rd show ?thesis by simp
qed

lemma round_double_overflow_example: "round_double (- (2 ^ 1020) * 100) = NegInf"
proof -
  have "(2::rat) ^ 1024 = 2 ^ 1020 * 2 ^ 4" by (simp add: power_add [symmetric])
  then have "pow2 1024 \<le> \<bar>- (2 ^ 1020) * 100 :: rat\<bar>"
    by (simp add: pow2_def abs_mult)
  then have "round_double (- (2 ^ 1020) * 100) =
      (if - (2 ^ 1020) * 100 < (0::rat) then NegInf else PosInf)"
    by (rule round_double_overflow)
  then show ?thesis by simp
qed

text \<open>The values used in the examples.\<close>

lemma round_double_examples:
  "round_double 100 = Fin 100" "round_double (- 100) = Fin (- 100)"
  "round_double 94 = Fin 94" "round_double 96 = Fin 96" "round_double 50 = Fin 50"
  "round_double (1 / 2) = Fin (1 / 2)"
proof -
  show "round_double 100 = Fin 100"
    by (rule round_double_exact [where k = 200]) simp_all
  show "round_double (- 100) = Fin (- 100)"
    by (rule round_double_exact [where k = "- 200"]) simp_all
  show "round_double 94 = Fin 94"
    by (rule round_double_exact [where k = 188]) simp_all
  show "round_double 96 = Fin 96"
    by (rule round_double_exact [where k = 192]) simp_all
  show "round_double 50 = Fin 50"
    by (rule round_double_exact [where k = 100]) simp_all
  show "round_double (1 / 2) = Fin (1 / 2)"
    by (rule round_double_exact [where k = 1]) simp_all
qed
section \<open>The argument list\<close>

lemma String_of_crf:
  assumes "18 \<le> c" and "c \<le> 28"
  shows "String_of c \<in> set [''18'', ''19'', ''20'', ''21'', ''22'', ''23'', ''24'', ''25'',
                             ''26'', ''27'', ''28'']"
proof -
  have "c = 18 \<or> c = 19 \<or> c = 20 \<or> c = 21 \<or> c = 22 \<or> c = 23 \<or> c = 24 \<or> c = 25 \<or>
        c = 26 \<or> c = 27 \<or> c = 28"
    using assms by arith
  then show ?thesis
    by (elim disjE) (simp_all add: String_of_def digits_of.simps digit_char_def)
qed

lemma String_of_height:
  "String_of 1080 = ''1080''" "String_of 720 = ''720''" "String_of 480 = ''480''"
  by (simp_all add: String_of_def digits_of.simps digit_char_def)

lemma preset_fresh: "valid_settings st \<Longrightarrow> preset st \<notin> set option_tokens"
  by (auto simp: valid_settings_def presets_def option_tokens_def)

lemma audioBitrate_fresh: "valid_settings st \<Longrightarrow> audioBitrate st \<notin> set option_tokens"
  by (auto simp: valid_settings_def audioBitrates_def option_tokens_def)

lemma crf_fresh:
  assumes "valid_settings st"
  shows "String_of (crf st) \<notin> set option_tokens"
proof -
  from assms have "String_of (crf st) \<in> set [''18'', ''19'', ''20'', ''21'', ''22'', ''23'',
      ''24'', ''25'', ''26'', ''27'', ''28'']"
    by (simp only: valid_settings_def String_of_crf)
  then show ?thesis
    by (auto simp: option_tokens_def)
qed

lemma scale_fresh: "''scale=-2:'' @ t \<notin> set option_tokens"
  by (simp add: option_tokens_def)

lemma values_no_scale_filter:
  assumes "valid_settings st"
  shows "\<not> is_scale_filter (preset st)" and "\<not> is_scale_filter (audioBitrate st)"
    and "\<not> is_scale_filter (String_of (crf st))"
proof -
  from assms show "\<not> is_scale_filter (preset st)"
    by (auto simp: valid_settings_def presets_def is_scale_filter_def)
  from assms show "\<not> is_scale_filter (audioBitrate st)"
    by (auto simp: valid_settings_def audioBitrates_def is_scale_filter_def)
  from assms have "String_of (crf st) \<in> set [''18'', ''19'', ''20'', ''21'', ''22'', ''23'',
      ''24'', ''25'', ''26'', ''27'', ''28'']"
    by (simp only: valid_settings_def String_of_crf)
  then show "\<not> is_scale_filter (String_of (crf st))"
    by (auto simp: is_scale_filter_def)
qed

lemma example_settings_valid: "valid_settings example_settings"
  by (simp add: valid_settings_def example_settings_def presets_def resolutions_def
      audioBitrates_def)

text \<open>
  C1. For valid settings, each of the flags \<open>-c:v libx264\<close>, \<open>-preset <preset>\<close>,
  \<open>-crf <quality>\<close>, \<open>-c:a aac\<close>, \<open>-b:a <bitrate>\<close> and \<open>-movflags +faststart\<close> stands
  at exactly one place of the argument list, these places come in that order, each of the
  tokens \<open>-c:v\<close>, \<open>-preset\<close>, \<open>-crf\<close>, \<open>-c:a\<close>, \<open>-b:a\<close> and \<open>+faststart\<close> occurs
  once, and the last token is the output name. (The option token \<open>-movflags\<close> itself
  occurs a second time, with the value \<open>use_metadata_tags\<close>, when metadata is copied.)
\<close>

theorem start_args_flags_once_in_order:
  assumes "valid_settings st"
  shows "\<exists>i1 i2 i3 i4 i5 i6.
     flag_positions ''-c:v'' ''libx264'' (start_args st) = [i1] \<and>
     flag_positions ''-preset'' (preset st) (start_args st) = [i2] \<and>
     flag_positions ''-crf'' (String_of (crf st)) (start_args st) = [i3] \<and>
     flag_positions ''-c:a'' ''aac'' (start_args st) = [i4] \<and>
     flag_positions ''-b:a'' (audioBitrate st) (start_args st) = [i5] \<and>
     flag_positions ''-movflags'' ''+faststart'' (start_args st) = [i6] \<and>
     i1 < i2 \<and> i2 < i3 \<and> i3 < i4 \<and> i4 < i5 \<and> i5 < i6 \<and>
     count_list (start_args st) ''-c:v'' = 1 \<and>
     count_list (start_args st) ''-preset'' = 1 \<and>
     count_list (start_args st) ''-crf'' = 1 \<and>
     count_list (start_args st) ''-c:a'' = 1 \<and>
     count_list (start_args st) ''-b:a'' = 1 \<and>
     count_list (start_args st) ''+faststart'' = 1 \<and>
     last (start_args st) = outputName"
proof -
  note fresh = preset_fresh [OF assms] audioBitrate_fresh [OF assms] crf_fresh [OF assms]
    scale_fresh
  show ?thesis
    using fresh
    by (cases "copyMetadata st"; cases "resolution st = ''source''")
      (simp_all add: start_args_def flag_positions_def option_tokens_def inputName_def
        outputName_def)
qed

theorem start_args_flags_once_in_order_witness:
  "valid_settings example_settings \<and>
   flag_positions ''-c:v'' ''libx264'' (start_args example_settings) = [6] \<and>
   flag_positions ''-preset'' ''medium'' (start_args example_settings) = [8] \<and>
   flag_positions ''-crf'' ''23'' (start_args example_settings) = [10] \<and>
   flag_positions ''-c:a'' ''aac'' (start_args example_settings) = [14] \<and>
   flag_positions ''-b:a'' ''128k'' (start_args example_settings) = [16] \<and>
   flag_positions ''-movflags'' ''+faststart'' (start_args example_settings) = [18] \<and>
   count_list (start_args example_settings) ''+faststart'' = 1 \<and>
   last (start_args example_settings) = ''output.mp4''"
  using start_args_flags_once_in_order [OF example_settings_valid]
  by (simp add: example_settings_valid)
    (simp add: start_args_def flag_positions_def example_settings_def inputName_def
      outputName_def String_of_def digits_of.simps digit_char_def)

text \<open>
  C2. For valid settings with \<open>copyMetadata\<close> set, the flags \<open>-map_metadata 0\<close> and
  \<open>-movflags use_metadata_tags\<close> each stand at one place of the argument list, before the
  place of \<open>-c:v libx264\<close>. With \<open>copyMetadata\<close> unset neither flag stands anywhere, and
  the tokens \<open>-map_metadata\<close>, \<open>0\<close> and \<open>use_metadata_tags\<close> do not occur in the list.
\<close>

theorem start_args_metadata_flags:
  assumes "valid_settings st"
  shows "if copyMetadata st
     then \<exists>i j k.
       flag_positions ''-map_metadata'' ''0'' (start_args st) = [i] \<and>
       flag_positions ''-movflags'' ''use_metadata_tags'' (start_args st) = [j] \<and>
       flag_positions ''-c:v'' ''libx264'' (start_args st) = [k] \<and> i < j \<and> j < k
     else
       flag_positions ''-map_metadata'' ''0'' (start_args st) = [] \<and>
       flag_positions ''-movflags'' ''use_metadata_tags'' (start_args st) = [] \<and>
       count_list (start_args st) ''-map_metadata'' = 0 \<and>
       count_list (start_args st) ''0'' = 0 \<and>
       count_list (start_args st) ''use_metadata_tags'' = 0"
proof -
  note fresh = preset_fresh [OF assms] audioBitrate_fresh [OF assms] crf_fresh [OF assms]
    scale_fresh
  show ?thesis
    using fresh
    by (cases "copyMetadata st"; cases "resolution st = ''source''")
      (simp_all add: start_args_def flag_positions_def option_tokens_def inputName_def
        outputName_def)
qed

theorem start_args_metadata_flags_witness:
  "valid_settings example_settings \<and> copyMetadata example_settings \<and>
   flag_positions ''-map_metadata'' ''0'' (start_args example_settings) = [2] \<and>
   flag_positions ''-movflags'' ''use_metadata_tags'' (start_args example_settings) = [4] \<and>
   flag_positions ''-c:v'' ''libx264'' (start_args example_settings) = [6] \<and>
   valid_settings (example_settings\<lparr>copyMetadata := False\<rparr>) \<and>
   count_list (start_args (example_settings\<lparr>copyMetadata := False\<rparr>)) ''-map_metadata'' = 0 \<and>
   count_list (start_args (example_settings\<lparr>copyMetadata := False\<rparr>)) ''use_metadata_tags'' = 0"
proof -
  have v: "valid_settings (example_settings\<lparr>copyMetadata := False\<rparr>)"
    using example_settings_valid by (simp add: valid_settings_def)
  show ?thesis
    using start_args_metadata_flags [OF example_settings_valid] start_args_metadata_flags [OF v]
    by (simp add: example_settings_valid v)
      (simp add: start_args_def flag_positions_def example_settings_def inputName_def
        outputName_def String_of_def digits_of.simps digit_char_def)
qed

text \<open>
  C3. For valid settings with the resolution \<open>source\<close>, the argument list has no \<open>-vf\<close>
  token and no scale filter. Otherwise it has exactly one scale filter: the token
  \<open>scale=-2:1080\<close>, \<open>scale=-2:720\<close> or \<open>scale=-2:480\<close> for the resolution 1080p, 720p or
  480p, as the value of the one \<open>-vf\<close> token, which stands after \<open>-c:v libx264\<close> and
  after \<open>-crf <quality>\<close>.
\<close>

theorem start_args_scale_filter:
  assumes "valid_settings st"
  shows "if resolution st = ''source''
     then count_list (start_args st) ''-vf'' = 0 \<and> filter is_scale_filter (start_args st) = []
     else \<exists>i j k.
       filter is_scale_filter (start_args st) =
         [if resolution st = ''1080p'' then ''scale=-2:1080''
          else if resolution st = ''720p'' then ''scale=-2:720'' else ''scale=-2:480''] \<and>
       count_list (start_args st) ''-vf'' = 1 \<and>
       flag_positions ''-vf'' (hd (filter is_scale_filter (start_args st))) (start_args st) = [k] \<and>
       flag_positions ''-c:v'' ''libx264'' (start_args st) = [i] \<and>
       flag_positions ''-crf'' (String_of (crf st)) (start_args st) = [j] \<and>
       i < j \<and> j < k"
proof -
  note fresh = preset_fresh [OF assms] audioBitrate_fresh [OF assms] crf_fresh [OF assms]
    scale_fresh values_no_scale_filter [OF assms]
  from assms have "resolution st = ''source'' \<or> resolution st = ''1080p'' \<or>
      resolution st = ''720p'' \<or> resolution st = ''480p''"
    by (auto simp: valid_settings_def resolutions_def)
  then show ?thesis
    using fresh
    by (elim disjE; cases "copyMetadata st")
      (simp_all add: start_args_def flag_positions_def option_tokens_def inputName_def
        outputName_def height_def String_of_height is_scale_filter_def)
qed

theorem start_args_scale_filter_witness:
  "valid_settings example_settings \<and> resolution example_settings \<noteq> ''source'' \<and>
   filter is_scale_filter (start_args example_settings) = [''scale=-2:720''] \<and>
   flag_positions ''-vf'' ''scale=-2:720'' (start_args example_settings) = [12] \<and>
   flag_positions ''-crf'' ''23'' (start_args example_settings) = [10] \<and>
   valid_settings (example_settings\<lparr>resolution := ''source''\<rparr>) \<and>
   filter is_scale_filter (start_args (example_settings\<lparr>resolution := ''source''\<rparr>)) = []"
proof -
  have v: "valid_settings (example_settings\<lparr>resolution := ''source''\<rparr>)"
    using example_settings_valid by (simp add: valid_settings_def resolutions_def)
  show ?thesis
    using start_args_scale_filter [OF example_settings_valid] start_args_scale_filter [OF v]
    by (simp add: example_settings_valid v)
      (simp add: start_args_def flag_positions_def example_settings_def inputName_def
        outputName_def String_of_def digits_of.simps digit_char_def is_scale_filter_def height_def)
qed

section \<open>Runs\<close>

lemma run_Nil: "run [] = init"
  by (simp add: run_def)

lemma run_snoc: "run (evs @ [e]) = step (run evs) e"
  by (simp add: run_def)

lemma run_append: "run (evs @ evs') = foldl step (run evs) evs'"
  by (simp add: run_def)

text \<open>A line of the encoder's log that shows a timestamp, and one that does not.\<close>

lemma time_regex_test_examples:
  "time_regex_test ''frame= 24 time=00:00:01.00''" "\<not> time_regex_test ''time=0:00:01''"
  by (simp_all add: time_match_here_def is_digit_def)

lemmas step_defs = load_def load_settled_def onDrop_def start_def start_disabled_def
  resume_def issue_def set_phase_def end_job_def catch_block_def finally_block_def

lemma run_encoding_trace:
  "run encoding_trace =
     init\<lparr>ffmpegReady := True, loadingMsg := Msg_empty, file := Some example_file,
          processing := True, ffmpegRef := True,
          jobs := [\<lparr>job_phase = Executing, job_settings = settings init,
                    job_file = example_file\<rparr>],
          calls := [Call_fetchFile example_file, Call_writeFile inputName [0, 0, 0, 24],
                    Call_exec (start_args (settings init))]\<rparr>"
  by (simp add: run_def encoding_trace_def init_def step_defs)

lemma run_reading:
  "run (encoding_trace @ [Settle 0 (Fulfilled [])]) =
     (run encoding_trace)\<lparr>
       jobs := [\<lparr>job_phase = Reading, job_settings = settings init, job_file = example_file\<rparr>],
       calls := [Call_fetchFile example_file, Call_writeFile inputName [0, 0, 0, 24],
                 Call_exec (start_args (settings init)), Call_readFile outputName]\<rparr>"
  by (simp add: run_append run_encoding_trace init_def step_defs)

section \<open>Progress\<close>

lemma js_le_not_less: "js_le a b \<Longrightarrow> \<not> js_less b a"
  by (cases a; cases b) auto

lemma half_integral_on_progress:
  assumes "\<not> Number_isNaN p"
  shows "half_integral (Math_min (Fin 100) (Math_round (js_mul p 100)))"
proof (cases p)
  case (Fin a)
  show ?thesis
    using round_double_not_NaN [of "a * 100"]
    by (cases "round_double (a * 100)") (auto simp: Fin)
qed (use assms in auto)

lemma half_integral_le: "half_integral p \<Longrightarrow> js_le p (Fin 100)"
  by (cases p) auto

text \<open>A nudge of a multiple of one half below 95.\<close>

lemma nudge_half_integer:
  assumes h: "half_integral (Fin q)" and less: "q < 95"
  shows "round_double (q + 1 / 2) = NegInf \<or>
         (\<exists>r. round_double (q + 1 / 2) = Fin r \<and> r \<le> 95 \<and> of_int \<lfloor>2 * r\<rfloor> = 2 * r)"
proof -
  from h have "\<exists>k. 2 * q = rat_of_int k" by auto
  then obtain k where k: "2 * q = rat_of_int k" by blast
  with less have "rat_of_int k < rat_of_int 190" by simp
  then have "k < 190" by (simp only: of_int_less_iff)
  then have "k + 1 \<le> 190" by simp
  then have "rat_of_int (k + 1) \<le> rat_of_int 190" by (simp only: of_int_le_iff)
  with k have le: "q + 1 / 2 \<le> 95" by simp
  from k have k1: "2 * (q + 1 / 2) = rat_of_int (k + 1)" by simp
  show ?thesis
  proof (cases "0 \<le> q + 1 / 2")
    case True
    with le have "\<bar>q + 1 / 2\<bar> < 2 ^ 52" by simp
    with k1 have "round_double (q + 1 / 2) = Fin (q + 1 / 2)"
      by (rule round_double_exact)
    moreover have "rat_of_int \<lfloor>2 * (q + 1 / 2)\<rfloor> = 2 * (q + 1 / 2)"
      by (simp only: k1 floor_of_int)
    ultimately show ?thesis using le by blast
  next
    case False
    then have "js_le (round_double (q + 1 / 2)) (Fin 0)"
      by (intro round_double_nonpos) simp
    moreover have "rat_of_int \<lfloor>2 * r\<rfloor> = 2 * r" if "2 * r = rat_of_int m" for r m
      by (simp only: that floor_of_int)
    ultimately show ?thesis
      using round_double_half_integer [OF k1] by auto
  qed
qed

lemma half_integral_nudge:
  assumes "half_integral p"
  shows "half_integral (nudge p)"
proof (cases p)
  case (Fin q)
  show ?thesis
  proof (cases "q < 95")
    case True
    with assms Fin nudge_half_integer [of q] show ?thesis
      by (auto simp: nudge_def)
  next
    case False
    with assms Fin show ?thesis by (simp add: nudge_def)
  qed
qed (use assms in \<open>auto simp: nudge_def\<close>)

lemma nudge_le_95:
  assumes "half_integral p" and "js_less p (Fin 95)"
  shows "js_le (nudge p) (Fin 95)"
proof (cases p)
  case (Fin q)
  with assms nudge_half_integer [of q] show ?thesis
    by (auto simp: nudge_def)
qed (use assms in \<open>auto simp: nudge_def\<close>)

lemma nudge_ge_95: "\<not> js_less p (Fin 95) \<Longrightarrow> nudge p = p"
  by (simp add: nudge_def)

lemma nudge_below_100:
  assumes "half_integral p" and "js_less p (Fin 100)"
  shows "js_less (nudge p) (Fin 100)"
proof (cases "js_less p (Fin 95)")
  case True
  with assms(1) have "js_le (nudge p) (Fin 95)" by (rule nudge_le_95)
  then show ?thesis by (cases "nudge p") auto
next
  case False
  with assms(2) show ?thesis by (simp add: nudge_ge_95)
qed

lemma nudge_nonneg: "js_le (Fin 0) p \<Longrightarrow> js_le (Fin 0) (nudge p)"
proof (cases p)
  case (Fin q)
  assume "js_le (Fin 0) p"
  with Fin have "0 \<le> q + 1 / 2" by simp
  then have "js_le (Fin 0) (round_double (q + 1 / 2))" by (rule round_double_nonneg)
  with \<open>js_le (Fin 0) p\<close> Fin show ?thesis by (simp add: nudge_def)
qed (auto simp: nudge_def)

text \<open>The value a progress event sets.\<close>

lemma percent_nonneg:
  assumes "js_le (Fin 0) p"
  shows "js_le (Fin 0) (Math_min (Fin 100) (Math_round (js_mul p 100)))"
proof (cases p)
  case (Fin q)
  with assms have "0 \<le> q * 100" by simp
  then have "js_le (Fin 0) (round_double (q * 100))" by (rule round_double_nonneg)
  then show ?thesis
    by (cases "round_double (q * 100)") (auto simp: Fin)
qed (use assms in auto)

lemma percent_100:
  assumes "\<not> Number_isNaN p" and "\<not> js_less (Math_round (js_mul p 100)) (Fin 100)"
  shows "Math_min (Fin 100) (Math_round (js_mul p 100)) = Fin 100"
proof (cases p)
  case (Fin a)
  with assms(2) show ?thesis
    using round_double_not_NaN [of "a * 100"]
    by (cases "round_double (a * 100)") auto
qed (use assms in auto)

lemma percent_below_100:
  assumes "js_less (Math_round (js_mul p 100)) (Fin 100)"
  shows "js_less (Math_min (Fin 100) (Math_round (js_mul p 100))) (Fin 100)"
  using assms by (cases "Math_round (js_mul p 100)") auto

lemma progress_on_log:
  "progress (on_log m s) = (if time_regex_test m then nudge (progress s) else progress s)"
  by (simp add: on_log_def Let_def)



lemma progress_on_progress:
  "progress (on_progress p s) =
     (if Number_isNaN p then progress s else Math_min (Fin 100) (Math_round (js_mul p 100)))"
  by (simp add: on_progress_def)

lemma progress_resume:
  "progress (resume i r s) =
     (if job_phase (jobs s ! i) = Reading \<and> r \<noteq> Rejected then Fin 100 else progress s)"
  by (cases "job_phase (jobs s ! i)"; cases r) (simp_all add: step_defs)

lemma progress_start: "progress (start s) = progress s \<or> progress (start s) = Fin 0"
  by (simp add: start_def issue_def split: option.splits)

text \<open>What an event can do to the progress value.\<close>

lemma progress_step_cases:
  "progress (step s e) = progress s \<or> progress (step s e) = Fin 0 \<or>
   (\<exists>m. e = Log m \<and> progress (step s e) = nudge (progress s)) \<or>
   (\<exists>p. e = Progress p \<and> \<not> Number_isNaN p \<and>
      progress (step s e) = Math_min (Fin 100) (Math_round (js_mul p 100))) \<or>
   (\<exists>i d. e = Settle i (Fulfilled d) \<and> i < length (jobs s) \<and>
      job_phase (jobs s ! i) = Reading \<and> progress (step s e) = Fin 100)"
proof (cases e)
  case (Settle i r)
  then show ?thesis by (cases r) (simp_all add: progress_resume)
next
  case Click_start
  then show ?thesis using progress_start [of s] by auto
qed (simp_all add: load_def load_settled_def progress_on_log progress_on_progress onDrop_def
    split: settled.splits)

lemma half_integral_step:
  assumes "half_integral (progress s)"
  shows "half_integral (progress (step s e))"
  using progress_step_cases [of s e] assms
  by (auto simp: half_integral_nudge half_integral_on_progress)

lemma half_integral_run: "half_integral (progress (run evs))"
proof (induction evs rule: rev_induct)
  case Nil
  show ?case by (simp add: run_Nil init_def)
next
  case (snoc e evs)
  then show ?case by (simp add: run_snoc half_integral_step)
qed

lemma nonneg_step:
  assumes "js_le (Fin 0) (progress s)" and "payload_nonneg e"
  shows "js_le (Fin 0) (progress (step s e))"
  using progress_step_cases [of s e] assms
  by (auto simp: nudge_nonneg percent_nonneg)

lemma nonneg_run: "list_all payload_nonneg evs \<Longrightarrow> js_le (Fin 0) (progress (run evs))"
proof (induction evs rule: rev_induct)
  case Nil
  show ?case by (simp add: run_Nil init_def)
next
  case (snoc e evs)
  then show ?case by (simp add: run_snoc nonneg_step)
qed

lemma reach_100_step:
  assumes "half_integral (progress s)" and "js_less (progress s) (Fin 100)"
    and "\<not> js_less (progress (step s e)) (Fin 100)"
  shows "(\<exists>p. e = Progress p \<and> \<not> Number_isNaN p \<and>
            \<not> js_less (Math_round (js_mul p 100)) (Fin 100)) \<or>
         (\<exists>i d. e = Settle i (Fulfilled d) \<and> i < length (jobs s) \<and>
            job_phase (jobs s ! i) = Reading)"
  using progress_step_cases [of s e] assms
  by (auto simp: nudge_below_100 dest: percent_below_100)

lemma logs_progress:
  assumes "half_integral (progress s)"
  shows "(js_less (progress s) (Fin 95) \<longrightarrow>
            js_le (progress (foldl step s (map Log ms))) (Fin 95)) \<and>
         (js_le (Fin 95) (progress s) \<longrightarrow>
            progress (foldl step s (map Log ms)) = progress s)"
  using assms
proof (induction ms arbitrary: s)
  case Nil
  then show ?case by (cases "progress s") auto
next
  case (Cons m ms)
  let ?s1 = "step s (Log m)"
  have h1: "half_integral (progress ?s1)"
    using Cons.prems by (rule half_integral_step)
  have p1: "progress ?s1 = progress s \<or> progress ?s1 = nudge (progress s)"
    by (simp add: progress_on_log)
  note IH = Cons.IH [OF h1]
  show ?case
  proof (intro conjI impI)
    assume less: "js_less (progress s) (Fin 95)"
    have "js_le (nudge (progress s)) (Fin 95)"
      using Cons.prems less by (rule nudge_le_95)
    moreover have "js_le (progress s) (Fin 95)"
      using less by (cases "progress s") auto
    ultimately have le1: "js_le (progress ?s1) (Fin 95)"
      using p1 by auto
    show "js_le (progress (foldl step s (map Log (m # ms)))) (Fin 95)"
    proof (cases "js_less (progress ?s1) (Fin 95)")
      case True
      with IH show ?thesis by simp
    next
      case False
      with le1 h1 have "js_le (Fin 95) (progress ?s1)"
        by (cases "progress ?s1") auto
      with IH le1 show ?thesis by simp
    qed
  next
    assume ge: "js_le (Fin 95) (progress s)"
    then have "nudge (progress s) = progress s"
      by (simp add: nudge_ge_95 js_le_not_less)
    with p1 have "progress ?s1 = progress s" by auto
    with IH ge show "progress (foldl step s (map Log (m # ms))) = progress s" by simp
  qed
qed

lemma run_encoding_progress:
  "run (encoding_trace @ [Progress p]) = on_progress p (run encoding_trace)"
  by (simp add: run_snoc run_encoding_trace init_def)

lemma payload_nonneg_encoding_trace: "list_all payload_nonneg encoding_trace"
  by (simp add: encoding_trace_def)

text \<open>The roundings used in the examples.\<close>

lemma floor_examples:
  "\<lfloor>201 / 2 :: rat\<rfloor> = 100" "\<lfloor>- (199 / 2) :: rat\<rfloor> = - 100" "\<lfloor>189 / 2 :: rat\<rfloor> = 94"
  "\<lfloor>193 / 2 :: rat\<rfloor> = 96" "\<lfloor>101 / 2 :: rat\<rfloor> = 50"
  by (simp_all add: floor_eq_iff)

text \<open>
  The binary64 value nearest to 0.995, a payload below 0.995 whose percentage the source
  computes as 100.
\<close>

lemma percent_995:
  "Math_round (js_mul (Fin (8962163258467287 / 9007199254740992)) 100) = Fin 100"
proof -
  have "js_mul (Fin (8962163258467287 / 9007199254740992)) 100 = Fin (199 / 2)"
    by (simp only: js_mul.simps round_double_995)
  moreover have "\<lfloor>199 / 2 + 1 / 2 :: rat\<rfloor> = 100" by simp
  ultimately show ?thesis by (simp only: Math_round.simps) simp
qed

text \<open>
  C4 (as amended). In every run the progress value is at most 100, and it is at least 0
  when no progress event of the run carries a negative payload; from any state, a
  non-negative value stays non-negative under every event but a progress event with a
  negative payload, and picking a file or a progress event with a non-negative payload
  makes the value non-negative whatever it was. The value 100 is set by the successful
  completion of a run (the read of the output is fulfilled) and by every progress event
  whose payload times 100, the binary64 product, rounds to 100 or more; and in a run it is
  reached from a smaller value by these two kinds of event only, by no log line and no
  other event.
\<close>

theorem progress_bounds:
  "js_le (progress (run evs)) (Fin 100) \<and>
   (list_all payload_nonneg evs \<longrightarrow> js_le (Fin 0) (progress (run evs))) \<and>
   (js_le (Fin 0) (progress s) \<and> payload_nonneg e \<longrightarrow> js_le (Fin 0) (progress (step s e))) \<and>
   progress (step s (Pick f)) = Fin 0 \<and>
   (ffmpegRef s \<and> js_le (Fin 0) p \<longrightarrow> js_le (Fin 0) (progress (step s (Progress p)))) \<and>
   (i < length (jobs s) \<and> job_phase (jobs s ! i) = Reading \<longrightarrow>
      progress (step s (Settle i (Fulfilled d))) = Fin 100) \<and>
   (ffmpegRef s \<and> \<not> Number_isNaN p \<and>
    \<not> js_less (Math_round (js_mul p 100)) (Fin 100) \<longrightarrow>
      progress (step s (Progress p)) = Fin 100) \<and>
   (js_less (progress (run evs)) (Fin 100) \<and>
    \<not> js_less (progress (step (run evs) e)) (Fin 100) \<longrightarrow>
      (\<exists>p. e = Progress p \<and> \<not> Number_isNaN p \<and>
         \<not> js_less (Math_round (js_mul p 100)) (Fin 100)) \<or>
      (\<exists>i d. e = Settle i (Fulfilled d) \<and> i < length (jobs (run evs)) \<and>
         job_phase (jobs (run evs) ! i) = Reading))"
proof -
  have upper: "js_le (progress (run evs)) (Fin 100)"
    using half_integral_run by (rule half_integral_le)
  have lower: "list_all payload_nonneg evs \<longrightarrow> js_le (Fin 0) (progress (run evs))"
    by (simp add: nonneg_run)
  have stays: "js_le (Fin 0) (progress s) \<and> payload_nonneg e \<longrightarrow>
      js_le (Fin 0) (progress (step s e))"
    by (simp add: nonneg_step)
  have pick: "progress (step s (Pick f)) = Fin 0"
    by (simp add: onDrop_def)
  have restored: "ffmpegRef s \<and> js_le (Fin 0) p \<longrightarrow>
      js_le (Fin 0) (progress (step s (Progress p)))"
  proof
    assume a: "ffmpegRef s \<and> js_le (Fin 0) p"
    then have "\<not> Number_isNaN p" by (cases p) auto
    with a show "js_le (Fin 0) (progress (step s (Progress p)))"
      by (simp add: progress_on_progress percent_nonneg)
  qed
  have completion: "i < length (jobs s) \<and> job_phase (jobs s ! i) = Reading \<longrightarrow>
      progress (step s (Settle i (Fulfilled d))) = Fin 100"
    by (simp add: progress_resume)
  have explicit: "ffmpegRef s \<and> \<not> Number_isNaN p \<and>
      \<not> js_less (Math_round (js_mul p 100)) (Fin 100) \<longrightarrow>
      progress (step s (Progress p)) = Fin 100"
    by (simp add: progress_on_progress percent_100)
  have only: "js_less (progress (run evs)) (Fin 100) \<and>
      \<not> js_less (progress (step (run evs) e)) (Fin 100) \<longrightarrow>
      (\<exists>p. e = Progress p \<and> \<not> Number_isNaN p \<and>
         \<not> js_less (Math_round (js_mul p 100)) (Fin 100)) \<or>
      (\<exists>i d. e = Settle i (Fulfilled d) \<and> i < length (jobs (run evs)) \<and>
         job_phase (jobs (run evs) ! i) = Reading)"
    using reach_100_step [OF half_integral_run, of evs e] by blast
  from upper lower stays pick restored completion explicit only show ?thesis
    by (intro conjI)
qed

theorem progress_bounds_witness:
  "list_all payload_nonneg encoding_trace \<and>
   js_le (Fin 0) (progress (run encoding_trace)) \<and>
   js_le (progress (run encoding_trace)) (Fin 100) \<and>
   js_less (progress (run encoding_trace)) (Fin 100) \<and>
   ffmpegRef (run encoding_trace) \<and>
   \<not> js_less (Math_round (js_mul (Fin (8962163258467287 / 9007199254740992)) 100)) (Fin 100) \<and>
   progress (step (run encoding_trace)
     (Progress (Fin (8962163258467287 / 9007199254740992)))) = Fin 100 \<and>
   js_le (Fin 0) (Fin (8962163258467287 / 9007199254740992)) \<and>
   job_phase (jobs (run (encoding_trace @ [Settle 0 (Fulfilled [])])) ! 0) = Reading \<and>
   js_less (progress (run (encoding_trace @ [Settle 0 (Fulfilled [])]))) (Fin 100) \<and>
   progress (step (run (encoding_trace @ [Settle 0 (Fulfilled [])]))
     (Settle 0 (Fulfilled [7]))) = Fin 100"
proof -
  have a: "ffmpegRef (run encoding_trace)" "js_less (progress (run encoding_trace)) (Fin 100)"
    "js_le (Fin 0) (progress (run encoding_trace))"
    by (simp_all add: run_encoding_trace init_def)
  have b: "0 < length (jobs (run (encoding_trace @ [Settle 0 (Fulfilled [])])))"
    "job_phase (jobs (run (encoding_trace @ [Settle 0 (Fulfilled [])])) ! 0) = Reading"
    "js_less (progress (run (encoding_trace @ [Settle 0 (Fulfilled [])]))) (Fin 100)"
    by (simp_all add: run_reading run_encoding_trace init_def)
  have c: "\<not> Number_isNaN (Fin (8962163258467287 / 9007199254740992))"
    "js_le (Fin 0) (Fin (8962163258467287 / 9007199254740992))"
    "\<not> js_less (Math_round (js_mul (Fin (8962163258467287 / 9007199254740992)) 100)) (Fin 100)"
    by (simp_all only: percent_995) simp_all
  show ?thesis
    using progress_bounds [where evs = encoding_trace and s = "run encoding_trace"
        and e = "Progress (Fin (8962163258467287 / 9007199254740992))"
        and p = "Fin (8962163258467287 / 9007199254740992)" and i = 0 and d = "[7]"
        and f = example_file]
      progress_bounds [where evs = "encoding_trace @ [Settle 0 (Fulfilled [])]"
        and s = "run (encoding_trace @ [Settle 0 (Fulfilled [])])"
        and e = "Settle 0 (Fulfilled [7])" and p = "Fin 0" and i = 0 and d = "[7]"
        and f = example_file]
    by (simp only: a b c payload_nonneg_encoding_trace simp_thms)
qed

text \<open>
  As the specification states it, C4 fails twice while the encoder is running and nothing
  has completed:
  a progress event with payload 1 sets the progress to 100, and one with payload -1 sets it
  to -100.
\<close>

theorem progress_claim_counterexample:
  "progress (run (encoding_trace @ [Progress (Fin 1)])) = Fin 100 \<and>
   processing (run (encoding_trace @ [Progress (Fin 1)])) \<and>
   map job_phase (jobs (run (encoding_trace @ [Progress (Fin 1)]))) = [Executing] \<and>
   outputBlob (run (encoding_trace @ [Progress (Fin 1)])) = None \<and>
   progress (run (encoding_trace @ [Progress (Fin (- 1))])) = Fin (- 100) \<and>
   \<not> js_le (Fin 0) (progress (run (encoding_trace @ [Progress (Fin (- 1))])))"
  by (simp add: run_encoding_progress on_progress_def run_encoding_trace init_def
      round_double_examples floor_examples)

text \<open>
  C5. From any state a run has reached, a sequence of log lines leaves the progress at 95
  or below if it was below 95, and leaves it unchanged if it was 95 or more.
\<close>

theorem log_heuristic_ceiling:
  "(js_less (progress (run evs)) (Fin 95) \<longrightarrow>
      js_le (progress (run (evs @ map Log ms))) (Fin 95)) \<and>
   (js_le (Fin 95) (progress (run evs)) \<longrightarrow>
      progress (run (evs @ map Log ms)) = progress (run evs))"
  using logs_progress [OF half_integral_run, of evs ms] by (simp add: run_append)

theorem log_heuristic_ceiling_witness:
  "js_less (progress (run (encoding_trace @ [Progress (Fin (47 / 50))]))) (Fin 95) \<and>
   js_le (progress (run ((encoding_trace @ [Progress (Fin (47 / 50))]) @
      map Log [''time=00:00:01'', ''time=00:00:01'']))) (Fin 95) \<and>
   js_le (Fin 95) (progress (run (encoding_trace @ [Progress (Fin (24 / 25))]))) \<and>
   progress (run ((encoding_trace @ [Progress (Fin (24 / 25))]) @
      map Log [''time=00:00:01'', ''time=00:00:01''])) = Fin 96"
  using log_heuristic_ceiling [of "encoding_trace @ [Progress (Fin (47 / 50))]"
      "[''time=00:00:01'', ''time=00:00:01'']"]
    log_heuristic_ceiling [of "encoding_trace @ [Progress (Fin (24 / 25))]"
      "[''time=00:00:01'', ''time=00:00:01'']"]
  by (simp add: run_encoding_progress on_progress_def run_encoding_trace init_def
      round_double_examples floor_examples)

text \<open>
  C9. A progress event whose payload is NaN leaves the whole state of the component, and so
  the progress value, as it was.
\<close>

theorem progress_NaN_ignored:
  "on_progress NaN s = s \<and> step s (Progress NaN) = s"
  by (simp add: on_progress_def)

theorem progress_NaN_ignored_witness:
  "progress (run (encoding_trace @ [Progress (Fin (1 / 2))])) = Fin 50 \<and>
   progress (step (run (encoding_trace @ [Progress (Fin (1 / 2))])) (Progress NaN)) = Fin 50"
  using progress_NaN_ignored [of "run (encoding_trace @ [Progress (Fin (1 / 2))])"]
  by (simp add: run_encoding_progress on_progress_def run_encoding_trace init_def
      round_double_examples floor_examples)

section \<open>The log buffer\<close>












section \<open>Calls of start\<close>

lemma filter_update_count:
  "i < length xs \<Longrightarrow>
   length (filter P (xs[i := y])) + (if P (xs ! i) then 1 else 0) =
   length (filter P xs) + (if P y then 1 else 0)"
proof (induction xs arbitrary: i)
  case Nil
  then show ?case by simp
next
  case (Cons x xs)
  then show ?case by (cases i) auto
qed

lemma filter_remove_count:
  assumes "i < length xs"
  shows "length (filter P (take i xs @ drop (Suc i) xs)) + (if P (xs ! i) then 1 else 0) =
         length (filter P xs)"
proof -
  from assms have "xs = take i xs @ xs ! i # drop (Suc i) xs"
    by (rule id_take_nth_drop)
  then have "length (filter P xs) = length (filter P (take i xs @ xs ! i # drop (Suc i) xs))"
    by simp
  then show ?thesis by simp
qed

lemma one_encoding_resume:
  assumes i: "i < length (jobs s)" and inv: "one_encoding s"
  shows "one_encoding (resume i r s)"
proof -
  let ?n = "length (filter encoding (jobs s))"
  have upd: "length (filter encoding ((jobs s)[i := (jobs s ! i)\<lparr>job_phase := ph\<rparr>])) +
      (if encoding (jobs s ! i) then 1 else 0) =
      ?n + (if encoding ((jobs s ! i)\<lparr>job_phase := ph\<rparr>) then 1 else 0)" for ph
    using i by (rule filter_update_count)
  have rem: "length (filter encoding (take i (jobs s) @ drop (Suc i) (jobs s))) +
      (if encoding (jobs s ! i) then 1 else 0) = ?n"
    using i by (rule filter_remove_count)
  from inv have n: "?n \<le> 1" and p: "?n = 0 \<or> processing s"
    by (simp_all del: length_0_conv add: one_encoding_def)
  show ?thesis
  proof (cases "job_phase (jobs s ! i)")
    case Fetching
    with upd [of Writing] rem n p show ?thesis
      by (cases r) (auto simp del: length_0_conv simp: one_encoding_def resume_def issue_def set_phase_def end_job_def
          encoding_def)
  next
    case Writing
    with upd [of Executing] rem n p show ?thesis
      by (cases r) (auto simp del: length_0_conv simp: one_encoding_def resume_def issue_def set_phase_def end_job_def
          encoding_def)
  next
    case Executing
    with upd [of Reading] upd [of Deleting_input] n p show ?thesis
      by (cases r) (auto simp del: length_0_conv simp: one_encoding_def resume_def issue_def set_phase_def
          catch_block_def finally_block_def encoding_def)
  next
    case Reading
    with upd [of Deleting_input] n p show ?thesis
      by (cases r) (auto simp del: length_0_conv simp: one_encoding_def resume_def issue_def set_phase_def
          catch_block_def finally_block_def encoding_def)
  next
    case Deleting_input
    with upd [of Deleting_output] rem n p show ?thesis
      by (cases r) (auto simp del: length_0_conv simp: one_encoding_def resume_def issue_def set_phase_def end_job_def
          encoding_def)
  next
    case Deleting_output
    with rem n p show ?thesis
      by (cases r) (auto simp del: length_0_conv simp: one_encoding_def resume_def end_job_def encoding_def)
  qed
qed

lemma one_encoding_start:
  assumes "one_encoding s" and "\<not> start_disabled s"
  shows "one_encoding (start s)"
  using assms
  by (auto simp del: length_0_conv simp: one_encoding_def start_disabled_def start_def
      issue_def encoding_def split: option.splits)

lemma one_encoding_step:
  assumes "one_encoding s"
  shows "one_encoding (step s e)"
proof (cases e)
  case (Settle i r)
  with assms show ?thesis by (simp add: one_encoding_resume)
next
  case Click_start
  with assms show ?thesis by (simp add: one_encoding_start)
qed (use assms in \<open>simp_all add: one_encoding_def load_def load_settled_def on_log_def
    on_progress_def onDrop_def Let_def split: settled.splits\<close>)

lemma one_encoding_run: "one_encoding (run evs)"
proof (induction evs rule: rev_induct)
  case Nil
  show ?case by (simp add: run_Nil init_def one_encoding_def)
next
  case (snoc e evs)
  then show ?case by (simp add: run_snoc one_encoding_step)
qed

text \<open>
  C7. In every run at most one call of \<open>start\<close> is encoding (between its guard and its
  \<open>finally\<close>), and while one is, \<open>processing\<close> is set. While \<open>processing\<close> is set the
  start button is disabled: a click on it changes nothing, so no second call begins and
  nothing is issued to the encoder. (The guard of \<open>start\<close> itself, line 92, does not look
  at \<open>processing\<close>; the rejection is the button's.)
\<close>

theorem one_job_at_a_time:
  "length (filter encoding (jobs (run evs))) \<le> 1 \<and>
   (filter encoding (jobs (run evs)) \<noteq> [] \<longrightarrow> processing (run evs)) \<and>
   (processing s \<longrightarrow> step s Click_start = s)"
  using one_encoding_run [of evs] by (auto simp: one_encoding_def start_disabled_def)

theorem one_job_at_a_time_witness:
  "filter encoding (jobs (run encoding_trace)) \<noteq> [] \<and>
   length (filter encoding (jobs (run encoding_trace))) = 1 \<and>
   processing (run encoding_trace) \<and>
   step (run encoding_trace) Click_start = run encoding_trace"
  using one_job_at_a_time [of encoding_trace "run encoding_trace"]
  by (simp add: run_encoding_trace init_def encoding_def)

text \<open>The function \<open>start\<close>, were it called while a call is encoding, would begin a
  second one.\<close>

lemma start_itself_unguarded:
  "map job_phase (jobs (start (run encoding_trace))) = [Executing, Fetching]"
  by (simp add: run_encoding_trace init_def start_def issue_def)

section \<open>A new run\<close>

lemma run_done_trace:
  "run done_trace =
     init\<lparr>ffmpegReady := True, loadingMsg := Msg_empty, file := Some example_file,
          outputBlob := Some [7], progress := Fin 100, logLines := [''time=00:00:01''],
          ffmpegRef := True,
          calls := [Call_fetchFile example_file, Call_writeFile inputName [0, 0, 0, 24],
                    Call_exec (start_args (settings init)), Call_readFile outputName,
                    Call_deleteFile inputName, Call_deleteFile outputName]\<rparr>"
  by (simp add: done_trace_def run_append run_encoding_trace init_def step_defs on_log_def
      time_match_here_def is_digit_def slice_last_def nudge_def)

text \<open>
  C8. The code does not reset the log when the same file is run again: after a completed run
  whose log holds a line, a click on the start button resets the result and the progress
  and begins a new call of \<open>start\<close>, and the log still holds the line of the previous
  run. Picking a file first (\<open>onDrop\<close>) does empty the log.
\<close>

theorem rerun_keeps_log:
  "logLines (run done_trace) = [''time=00:00:01''] \<and>
   outputBlob (run done_trace) = Some [7] \<and>
   progress (run done_trace) = Fin 100 \<and>
   \<not> processing (run done_trace) \<and>
   jobs (run done_trace) = [] \<and>
   logLines (run (done_trace @ [Click_start])) = [''time=00:00:01''] \<and>
   outputBlob (run (done_trace @ [Click_start])) = None \<and>
   progress (run (done_trace @ [Click_start])) = Fin 0 \<and>
   processing (run (done_trace @ [Click_start])) \<and>
   map job_phase (jobs (run (done_trace @ [Click_start]))) = [Fetching] \<and>
   logLines (run (done_trace @ [Pick example_file, Click_start])) = []"
  by (simp add: run_append run_done_trace init_def step_defs)

section \<open>Cleanup\<close>

lemma names_differ: "inputName \<noteq> outputName"
  by (simp add: inputName_def outputName_def)

lemma cleanup_counts_resume:
  assumes i: "i < length (jobs s)" and inv: "cleanup_counts s"
  shows "cleanup_counts (resume i r s)"
proof -
  let ?n = "length (filter awaits_input_deletion (jobs s))"
  have upd: "length (filter awaits_input_deletion
        ((jobs s)[i := (jobs s ! i)\<lparr>job_phase := ph\<rparr>])) +
      (if awaits_input_deletion (jobs s ! i) then 1 else 0) =
      ?n + (if awaits_input_deletion ((jobs s ! i)\<lparr>job_phase := ph\<rparr>) then 1 else 0)" for ph
    using i by (rule filter_update_count)
  have rem: "length (filter awaits_input_deletion (take i (jobs s) @ drop (Suc i) (jobs s))) +
      (if awaits_input_deletion (jobs s ! i) then 1 else 0) = ?n"
    using i by (rule filter_remove_count)
  note simps = cleanup_counts_def resume_def issue_def set_phase_def end_job_def
    catch_block_def finally_block_def awaits_input_deletion_def names_differ
    names_differ [symmetric]
  show ?thesis
  proof (cases "job_phase (jobs s ! i)")
    case Fetching
    with upd [of Writing] rem inv show ?thesis
      by (cases r) (auto simp del: length_0_conv simp: simps)
  next
    case Writing
    with upd [of Executing] rem inv show ?thesis
      by (cases r) (auto simp del: length_0_conv simp: simps)
  next
    case Executing
    with upd [of Reading] upd [of Deleting_input] inv show ?thesis
      by (cases r) (auto simp del: length_0_conv simp: simps)
  next
    case Reading
    with upd [of Deleting_input] inv show ?thesis
      by (cases r) (auto simp del: length_0_conv simp: simps)
  next
    case Deleting_input
    with upd [of Deleting_output] rem inv show ?thesis
      by (cases r) (auto simp del: length_0_conv simp: simps)
  next
    case Deleting_output
    with rem inv show ?thesis
      by (cases r) (auto simp del: length_0_conv simp: simps)
  qed
qed

lemma cleanup_counts_step:
  assumes "cleanup_counts s"
  shows "cleanup_counts (step s e)"
proof (cases e)
  case (Settle i r)
  with assms show ?thesis by (simp add: cleanup_counts_resume)
next
  case Click_start
  with assms show ?thesis
    by (auto simp: cleanup_counts_def start_def issue_def awaits_input_deletion_def
        split: option.splits)
qed (use assms in \<open>simp_all add: cleanup_counts_def load_def load_settled_def on_log_def
    on_progress_def onDrop_def Let_def split: settled.splits\<close>)

lemma cleanup_counts_run: "cleanup_counts (run evs)"
proof (induction evs rule: rev_induct)
  case Nil
  show ?case by (simp add: run_Nil init_def cleanup_counts_def)
next
  case (snoc e evs)
  then show ?case by (simp add: run_snoc cleanup_counts_step)
qed

lemma run_failed_trace:
  "run failed_trace =
     init\<lparr>ffmpegReady := True, loadingMsg := Msg_empty, file := Some example_file,
          ffmpegRef := True,
          jobs := [\<lparr>job_phase = Deleting_input, job_settings = settings init,
                    job_file = example_file\<rparr>],
          calls := [Call_fetchFile example_file, Call_writeFile inputName [0, 0, 0, 24],
                    Call_exec (start_args (settings init)), Call_deleteFile inputName],
          alerts := [''Encoding failed. See log below for details.'']\<rparr>"
  by (simp add: failed_trace_def run_append run_encoding_trace init_def step_defs)

text \<open>
  C10. A call of \<open>start\<close> whose run is rejected, or whose read of the output settles
  either way, issues the deletion of the input file and waits for it. If that deletion is
  rejected the call ends: nothing else of the state changes, so the deletion of the output
  file is not issued and no alert is shown. If it is fulfilled, the deletion of the output
  file is issued, and however that one settles the call ends with nothing else changed.
  In every run the deletions of the output file issued are no more than those of the input
  file.
\<close>

theorem cleanup_order:
  assumes "i < length (jobs s)"
  shows
    "count_list (calls (run evs)) (Call_deleteFile outputName) \<le>
       count_list (calls (run evs)) (Call_deleteFile inputName) \<and>
     (job_phase (jobs s ! i) = Executing \<longrightarrow>
        calls (step s (Settle i Rejected)) = calls s @ [Call_deleteFile inputName] \<and>
        job_phase (jobs (step s (Settle i Rejected)) ! i) = Deleting_input) \<and>
     (job_phase (jobs s ! i) = Reading \<longrightarrow>
        calls (step s (Settle i r)) = calls s @ [Call_deleteFile inputName] \<and>
        job_phase (jobs (step s (Settle i r)) ! i) = Deleting_input) \<and>
     (job_phase (jobs s ! i) = Deleting_input \<longrightarrow>
        step s (Settle i Rejected) = s\<lparr>jobs := take i (jobs s) @ drop (Suc i) (jobs s)\<rparr> \<and>
        calls (step s (Settle i (Fulfilled v))) = calls s @ [Call_deleteFile outputName] \<and>
        alerts (step s (Settle i (Fulfilled v))) = alerts s \<and>
        job_phase (jobs (step s (Settle i (Fulfilled v))) ! i) = Deleting_output) \<and>
     (job_phase (jobs s ! i) = Deleting_output \<longrightarrow>
        step s (Settle i r) = s\<lparr>jobs := take i (jobs s) @ drop (Suc i) (jobs s)\<rparr>)"
proof -
  have "count_list (calls (run evs)) (Call_deleteFile outputName) \<le>
      count_list (calls (run evs)) (Call_deleteFile inputName)"
    using cleanup_counts_run [of evs] by (simp add: cleanup_counts_def)
  moreover have "job_phase (jobs s ! i) = Executing \<longrightarrow>
        calls (step s (Settle i Rejected)) = calls s @ [Call_deleteFile inputName] \<and>
        job_phase (jobs (step s (Settle i Rejected)) ! i) = Deleting_input"
    using assms by (simp add: step_defs)
  moreover have "job_phase (jobs s ! i) = Reading \<longrightarrow>
        calls (step s (Settle i r)) = calls s @ [Call_deleteFile inputName] \<and>
        job_phase (jobs (step s (Settle i r)) ! i) = Deleting_input"
    using assms by (cases r) (simp_all add: step_defs)
  moreover have "job_phase (jobs s ! i) = Deleting_input \<longrightarrow>
        step s (Settle i Rejected) = s\<lparr>jobs := take i (jobs s) @ drop (Suc i) (jobs s)\<rparr> \<and>
        calls (step s (Settle i (Fulfilled v))) = calls s @ [Call_deleteFile outputName] \<and>
        alerts (step s (Settle i (Fulfilled v))) = alerts s \<and>
        job_phase (jobs (step s (Settle i (Fulfilled v))) ! i) = Deleting_output"
    using assms by (simp add: step_defs)
  moreover have "job_phase (jobs s ! i) = Deleting_output \<longrightarrow>
        step s (Settle i r) = s\<lparr>jobs := take i (jobs s) @ drop (Suc i) (jobs s)\<rparr>"
    using assms by (cases r) (simp_all add: step_defs)
  ultimately show ?thesis by blast
qed

lemma run_deleting_output:
  "run (failed_trace @ [Settle 0 (Fulfilled [])]) =
     (run failed_trace)\<lparr>
       jobs := [\<lparr>job_phase = Deleting_output, job_settings = settings init,
                 job_file = example_file\<rparr>],
       calls := [Call_fetchFile example_file, Call_writeFile inputName [0, 0, 0, 24],
                 Call_exec (start_args (settings init)), Call_deleteFile inputName,
                 Call_deleteFile outputName]\<rparr>"
  by (simp add: run_append run_failed_trace init_def step_defs)

theorem cleanup_order_witness:
  "job_phase (jobs (run encoding_trace) ! 0) = Executing \<and>
   last (calls (step (run encoding_trace) (Settle 0 Rejected))) = Call_deleteFile inputName \<and>
   job_phase (jobs (run (encoding_trace @ [Settle 0 (Fulfilled [])])) ! 0) = Reading \<and>
   last (calls (step (run (encoding_trace @ [Settle 0 (Fulfilled [])])) (Settle 0 (Fulfilled [7])))) =
     Call_deleteFile inputName \<and>
   job_phase (jobs (run failed_trace) ! 0) = Deleting_input \<and>
   calls (step (run failed_trace) (Settle 0 Rejected)) = calls (run failed_trace) \<and>
   alerts (step (run failed_trace) (Settle 0 Rejected)) = alerts (run failed_trace) \<and>
   jobs (step (run failed_trace) (Settle 0 Rejected)) = [] \<and>
   last (calls (step (run failed_trace) (Settle 0 (Fulfilled [])))) = Call_deleteFile outputName \<and>
   job_phase (jobs (run (failed_trace @ [Settle 0 (Fulfilled [])])) ! 0) = Deleting_output \<and>
   step (run (failed_trace @ [Settle 0 (Fulfilled [])])) (Settle 0 Rejected) =
     (run (failed_trace @ [Settle 0 (Fulfilled [])]))\<lparr>jobs := []\<rparr> \<and>
   count_list (calls (run done_trace)) (Call_deleteFile outputName) = 1 \<and>
   count_list (calls (run done_trace)) (Call_deleteFile inputName) = 1"
proof -
  have i1: "0 < length (jobs (run encoding_trace))"
    by (simp add: run_encoding_trace)
  have i2: "0 < length (jobs (run (encoding_trace @ [Settle 0 (Fulfilled [])])))"
    by (simp add: run_reading)
  have i3: "0 < length (jobs (run failed_trace))"
    by (simp add: run_failed_trace)
  have i4: "0 < length (jobs (run (failed_trace @ [Settle 0 (Fulfilled [])])))"
    by (simp add: run_deleting_output)
  have c: "count_list (calls (run done_trace)) (Call_deleteFile outputName) = 1"
    "count_list (calls (run done_trace)) (Call_deleteFile inputName) = 1"
    by (simp_all add: run_done_trace inputName_def outputName_def)
  show ?thesis
    using cleanup_order [OF i1, where r = Rejected and v = "[]" and evs = done_trace]
      cleanup_order [OF i2, where r = "Fulfilled [7]" and v = "[]" and evs = done_trace]
      cleanup_order [OF i3, where r = Rejected and v = "[]" and evs = done_trace]
      cleanup_order [OF i4, where r = Rejected and v = "[]" and evs = done_trace]
    by (simp add: c) (simp add: run_reading run_deleting_output run_failed_trace
        run_encoding_trace init_def)
qed

end
